theory Spec2Isabelle
  imports Complex_Main
begin

section \<open>Matrices of exact rationals\<close>

text \<open>
  Both scripts work on \<^verbatim>\<open>sp.Matrix\<close> objects whose entries are \<^verbatim>\<open>sp.Rational\<close>:
  a rectangular table with its two dimensions, read and written as \<^verbatim>\<open>M[i, j]\<close>.
  The record keeps the dimensions and the entry function. Every index the two scripts
  use is drawn from \<^verbatim>\<open>range(m)\<close>, \<^verbatim>\<open>range(n)\<close> or \<^verbatim>\<open>range(n_vars)\<close> after the shape
  check, so no access is out of range.
\<close>

record matrix =
  rows :: nat
  cols :: nat
  ent :: "nat \<Rightarrow> nat \<Rightarrow> rat"

text \<open>\<^verbatim>\<open>sp.Matrix(rows)\<close>: a matrix from the list of its rows.\<close>

definition Matrix :: "rat list list \<Rightarrow> matrix" where
  "Matrix rs =
     \<lparr>rows = length rs,
      cols = (case rs of [] \<Rightarrow> 0 | r # _ \<Rightarrow> length r),
      ent = (\<lambda>i j. rs ! i ! j)\<rparr>"

text \<open>The entries of a matrix as a list of rows (what \<^verbatim>\<open>M.tolist()\<close> shows).\<close>

definition tolist :: "matrix \<Rightarrow> rat list list" where
  "tolist M = map (\<lambda>i. map (\<lambda>j. ent M i j) [0..<cols M]) [0..<rows M]"

text \<open>The slices \<^verbatim>\<open>Ab[i, :]\<close> (one row, as a 1-row matrix) and \<^verbatim>\<open>row[:, :n]\<close>.\<close>

definition row_slice :: "matrix \<Rightarrow> nat \<Rightarrow> matrix" where
  "row_slice M i = \<lparr>rows = 1, cols = cols M, ent = (\<lambda>r c. ent M (i + r) c)\<rparr>"

definition cols_upto :: "matrix \<Rightarrow> nat \<Rightarrow> matrix" where
  "cols_upto M n = \<lparr>rows = rows M, cols = min n (cols M), ent = ent M\<rparr>"

section \<open>Symbolic expressions\<close>

text \<open>
  The solution vector holds \<^verbatim>\<open>sp.Expr\<close> values built from rationals, the parameter
  symbols \<^verbatim>\<open>t0, t1, ...\<close> (\<open>Sym k\<close> is \<^verbatim>\<open>tk\<close>), subtraction, multiplication and
  division. An expression is evaluated under a valuation of the symbols; a division
  whose divisor evaluates to zero has no value.
\<close>

datatype expr =
    Num rat
  | Sym nat
  | Sub expr expr
  | Mul expr expr
  | Div expr expr

fun eval :: "(nat \<Rightarrow> rat) \<Rightarrow> expr \<Rightarrow> rat option" where
  "eval \<rho> (Num q) = Some q"
| "eval \<rho> (Sym k) = Some (\<rho> k)"
| "eval \<rho> (Sub a b) =
     (case eval \<rho> a of None \<Rightarrow> None
      | Some u \<Rightarrow> (case eval \<rho> b of None \<Rightarrow> None | Some v \<Rightarrow> Some (u - v)))"
| "eval \<rho> (Mul a b) =
     (case eval \<rho> a of None \<Rightarrow> None
      | Some u \<Rightarrow> (case eval \<rho> b of None \<Rightarrow> None | Some v \<Rightarrow> Some (u * v)))"
| "eval \<rho> (Div a b) =
     (case eval \<rho> a of None \<Rightarrow> None
      | Some u \<Rightarrow> (case eval \<rho> b of None \<Rightarrow> None
                  | Some v \<Rightarrow> if v = 0 then None else Some (u / v)))"

text \<open>
  \<^verbatim>\<open>sp.simplify\<close> rewrites an expression into one of the same value. The embedding
  keeps the expression as it was built.
\<close>

definition simplify :: "expr \<Rightarrow> expr" where
  "simplify e = e"

text \<open>\<^verbatim>\<open>sp.symbols(f"t0:{n}")\<close>: the tuple \<^verbatim>\<open>(t0, ..., t(n-1))\<close>.\<close>

definition symbols :: "nat \<Rightarrow> expr list" where
  "symbols n = map Sym [0..<n]"

section \<open>Exceptions\<close>

text \<open>
  \<^verbatim>\<open>class InputError(Exception)\<close> carries a message. A call of a Python function
  either leaves through \<^verbatim>\<open>raise\<close> or through \<^verbatim>\<open>return\<close>.
\<close>

datatype exn = InputError string

datatype 'a outcome = Raise exn | Return 'a

abbreviation wrong_columns :: exn where
  "wrong_columns \<equiv> InputError ''Augmented matrix has wrong number of columns.''"

abbreviation inconsistent :: exn where
  "inconsistent \<equiv> InputError ''System is inconsistent (row of form 0=nonzero). No solution.''"

section \<open>Back substitution (Back subtracktion.py)\<close>

definition is_inconsistent_row :: "matrix \<Rightarrow> nat \<Rightarrow> bool" where
  "is_inconsistent_row row n_vars =
     (let left = cols_upto row n_vars;
          b = ent row 0 n_vars
      in list_all (\<lambda>j. ent left 0 j = 0) [0..<n_vars] \<and> b \<noteq> 0)"

text \<open>
  The inner scan \<^verbatim>\<open>for j in range(n_vars): if Ab[i, j] != 0: ...; break\<close> stops at the
  first nonzero entry of row \<open>i\<close>.
\<close>

definition first_nonzero :: "matrix \<Rightarrow> nat \<Rightarrow> nat \<Rightarrow> nat option" where
  "first_nonzero Ab n_vars i = find (\<lambda>j. ent Ab i j \<noteq> 0) [0..<n_vars]"

text \<open>
  The pivot scan fills \<^verbatim>\<open>pivot_col_for_row\<close> (\<open>None\<close> is the initial \<^verbatim>\<open>-1\<close>) and the set
  \<^verbatim>\<open>pivot_cols\<close>.
\<close>

definition pivot_scan :: "matrix \<Rightarrow> nat \<Rightarrow> nat option list \<times> nat set" where
  "pivot_scan Ab n_vars =
     fold (\<lambda>i (pivot_col_for_row, pivot_cols).
             case first_nonzero Ab n_vars i of
               None \<Rightarrow> (pivot_col_for_row, pivot_cols)
             | Some j \<Rightarrow> (pivot_col_for_row[i := Some j], insert j pivot_cols))
          [0..<rows Ab]
          (replicate (rows Ab) None, {})"

text \<open>\<^verbatim>\<open>x = [0] * n_vars; for k, j in enumerate(free_cols): x[j] = t[k]\<close>\<close>

definition bind_free :: "nat \<Rightarrow> nat list \<Rightarrow> expr list" where
  "bind_free n_vars free_cols =
     (let t = symbols (length free_cols)
      in fold (\<lambda>(k, j) x. x[j := t ! k]) (enumerate 0 free_cols)
           (replicate n_vars (Num 0)))"

text \<open>The inner loop \<^verbatim>\<open>for j in range(pc + 1, n_vars): rhs = simplify(rhs - Ab[i, j] * x[j])\<close>.\<close>

definition subtract_known :: "matrix \<Rightarrow> nat \<Rightarrow> nat \<Rightarrow> nat \<Rightarrow> expr list \<Rightarrow> expr" where
  "subtract_known Ab n_vars i pc x =
     fold (\<lambda>j rhs. simplify (Sub rhs (Mul (Num (ent Ab i j)) (x ! j))))
          [pc + 1..<n_vars]
          (Num (ent Ab i n_vars))"

text \<open>One pass of the outer loop body, for row \<open>i\<close>.\<close>

definition solve_row :: "matrix \<Rightarrow> nat \<Rightarrow> nat option list \<Rightarrow> nat \<Rightarrow> expr list \<Rightarrow> expr list" where
  "solve_row Ab n_vars pivot_col_for_row i x =
     (case pivot_col_for_row ! i of
        None \<Rightarrow> x
      | Some pc \<Rightarrow>
          (let rhs = subtract_known Ab n_vars i pc x
           in x[pc := simplify (Div rhs (Num (ent Ab i pc)))]))"

text \<open>\<^verbatim>\<open>for i in range(m - 1, -1, -1)\<close>: the rows from the last to the first.\<close>

definition back_substitute :: "matrix \<Rightarrow> nat \<Rightarrow> nat option list \<Rightarrow> expr list \<Rightarrow> expr list" where
  "back_substitute Ab n_vars pivot_col_for_row x =
     fold (solve_row Ab n_vars pivot_col_for_row) (rev [0..<rows Ab]) x"

text \<open>
  The function itself. \<open>n_vars\<close> counts the variables and is a natural number here (the
  script reads it with \<^verbatim>\<open>read_int(..., 1, 20)\<close>). The two \<^verbatim>\<open>raise InputError(...)\<close>
  statements are the two \<open>Raise\<close> branches, the final \<^verbatim>\<open>return x, free_cols\<close> the
  \<open>Return\<close>.
\<close>

definition back_substitution :: "matrix \<Rightarrow> nat \<Rightarrow> (expr list \<times> nat list) outcome" where
  "back_substitution Ab n_vars =
     (let m = rows Ab; total_cols = cols Ab in
      if total_cols \<noteq> n_vars + 1 then
        Raise (InputError ''Augmented matrix has wrong number of columns.'')
      else if list_ex (\<lambda>i. is_inconsistent_row (row_slice Ab i) n_vars) [0..<m] then
        Raise (InputError ''System is inconsistent (row of form 0=nonzero). No solution.'')
      else
        (let (pivot_col_for_row, pivot_cols) = pivot_scan Ab n_vars;
             free_cols = filter (\<lambda>j. j \<notin> pivot_cols) [0..<n_vars];
             x = bind_free n_vars free_cols;
             x = back_substitute Ab n_vars pivot_col_for_row x
         in Return (x, free_cols)))"

section \<open>Row echelon reduction (REF.py)\<close>

text \<open>
  The in-place operations of \<^verbatim>\<open>sp.Matrix\<close> that \<^verbatim>\<open>ref\<close> calls. \<^verbatim>\<open>M[i, j] = v\<close> writes
  one entry; \<^verbatim>\<open>M.row_swap(i, j)\<close> exchanges two rows; \<^verbatim>\<open>M.row_op(i, f)\<close> runs
  \<^verbatim>\<open>for j in range(self.cols): self[i, j] = f(self[i, j], j)\<close>. The function given to
  \<^verbatim>\<open>row_op\<close> is a closure that reads \<^verbatim>\<open>M\<close> while \<^verbatim>\<open>M\<close> is being written, so in the
  model it receives the matrix as it is at that moment.
\<close>

definition set_ent :: "matrix \<Rightarrow> nat \<Rightarrow> nat \<Rightarrow> rat \<Rightarrow> matrix" where
  "set_ent M i j v = M\<lparr>ent := (ent M)(i := (ent M i)(j := v))\<rparr>"

definition row_swap :: "matrix \<Rightarrow> nat \<Rightarrow> nat \<Rightarrow> matrix" where
  "row_swap M i j =
     M\<lparr>ent := (\<lambda>r c. if c < cols M
                        then (if r = i then ent M j c else if r = j then ent M i c else ent M r c)
                        else ent M r c)\<rparr>"

definition row_op :: "matrix \<Rightarrow> nat \<Rightarrow> (matrix \<Rightarrow> rat \<Rightarrow> nat \<Rightarrow> rat) \<Rightarrow> matrix" where
  "row_op M i f = fold (\<lambda>j M'. set_ent M' i j (f M' (ent M' i j) j)) [0..<cols M] M"

text \<open>\<^verbatim>\<open>A.copy()\<close>: a new matrix with the same entries.\<close>

definition copy :: "matrix \<Rightarrow> matrix" where
  "copy A = A"

text \<open>
  The search \<^verbatim>\<open>for r in range(pivot_row, m): if M[r, col] != 0: pivot = r; break\<close>;
  \<open>None\<close> is Python's \<^verbatim>\<open>None\<close>.
\<close>

definition find_pivot :: "nat \<Rightarrow> matrix \<Rightarrow> nat \<Rightarrow> nat \<Rightarrow> nat option" where
  "find_pivot m M col pivot_row = find (\<lambda>r. ent M r col \<noteq> 0) [pivot_row..<m]"

text \<open>
  The elimination loop below the pivot. On a rational \<^verbatim>\<open>sp.simplify\<close> returns the
  rational itself.
\<close>

definition eliminate :: "nat \<Rightarrow> matrix \<Rightarrow> nat \<Rightarrow> nat \<Rightarrow> rat \<Rightarrow> matrix" where
  "eliminate m M pivot_row col pivot_val =
     fold (\<lambda>r M.
             if ent M r col = 0 then M
             else (let factor = ent M r col / pivot_val
                   in row_op M r (\<lambda>M' val j. val - factor * ent M' pivot_row j)))
          [pivot_row + 1..<m] M"

text \<open>
  The loop \<^verbatim>\<open>for col in range(n)\<close> over the remaining columns, with the loop state
  \<^verbatim>\<open>M\<close>, \<^verbatim>\<open>pivot_row\<close>, \<^verbatim>\<open>pivot_cols\<close>. The first branch is the \<^verbatim>\<open>break\<close>, the
  \<open>None\<close> branch the \<^verbatim>\<open>continue\<close>.
\<close>

fun ref_loop :: "nat \<Rightarrow> nat list \<Rightarrow> matrix \<Rightarrow> nat \<Rightarrow> nat list \<Rightarrow> matrix \<times> nat list" where
  "ref_loop m [] M pivot_row pivot_cols = (M, pivot_cols)"
| "ref_loop m (col # cs) M pivot_row pivot_cols =
     (if pivot_row \<ge> m then (M, pivot_cols)
      else
        (case find_pivot m M col pivot_row of
           None \<Rightarrow> ref_loop m cs M pivot_row pivot_cols
         | Some pivot \<Rightarrow>
             (let M = (if pivot \<noteq> pivot_row then row_swap M pivot pivot_row else M);
                  pivot_val = ent M pivot_row col;
                  pivot_cols = pivot_cols @ [col];
                  M = eliminate m M pivot_row col pivot_val
              in ref_loop m cs M (pivot_row + 1) pivot_cols)))"

definition ref :: "matrix \<Rightarrow> matrix \<times> nat list" where
  "ref A =
     (let M = copy A;
          m = rows M; n = cols M
      in ref_loop m [0..<n] M 0 [])"

section \<open>The two functions on a store of matrix objects\<close>

text \<open>
  A \<^verbatim>\<open>sp.Matrix\<close> is a mutable object and Python passes a reference to it. To see what
  a call does to the caller's matrix, the matrices live in a store, a list of objects
  addressed by their index; \<^verbatim>\<open>copy()\<close> allocates a new object at the end of the store,
  and the in-place operations write to the object at the address they are called on.
  The definitions below are those of the previous section with every read and write
  going through the store.
\<close>

type_synonym heap = "matrix list"

definition copy_at :: "heap \<Rightarrow> nat \<Rightarrow> heap \<times> nat" where
  "copy_at h a = (h @ [h ! a], length h)"

definition row_swap_at :: "heap \<Rightarrow> nat \<Rightarrow> nat \<Rightarrow> nat \<Rightarrow> heap" where
  "row_swap_at h a i j = h[a := row_swap (h ! a) i j]"

definition row_op_at :: "heap \<Rightarrow> nat \<Rightarrow> nat \<Rightarrow> (heap \<Rightarrow> rat \<Rightarrow> nat \<Rightarrow> rat) \<Rightarrow> heap" where
  "row_op_at h a i f =
     fold (\<lambda>j h'. h'[a := set_ent (h' ! a) i j (f h' (ent (h' ! a) i j) j)])
          [0..<cols (h ! a)] h"

definition eliminate_at :: "nat \<Rightarrow> heap \<Rightarrow> nat \<Rightarrow> nat \<Rightarrow> nat \<Rightarrow> rat \<Rightarrow> heap" where
  "eliminate_at m h M pivot_row col pivot_val =
     fold (\<lambda>r h.
             if ent (h ! M) r col = 0 then h
             else (let factor = ent (h ! M) r col / pivot_val
                   in row_op_at h M r (\<lambda>h' val j. val - factor * ent (h' ! M) pivot_row j)))
          [pivot_row + 1..<m] h"

fun ref_loop_at :: "nat \<Rightarrow> nat list \<Rightarrow> heap \<Rightarrow> nat \<Rightarrow> nat \<Rightarrow> nat list \<Rightarrow> heap \<times> nat list" where
  "ref_loop_at m [] h M pivot_row pivot_cols = (h, pivot_cols)"
| "ref_loop_at m (col # cs) h M pivot_row pivot_cols =
     (if pivot_row \<ge> m then (h, pivot_cols)
      else
        (case find_pivot m (h ! M) col pivot_row of
           None \<Rightarrow> ref_loop_at m cs h M pivot_row pivot_cols
         | Some pivot \<Rightarrow>
             (let h = (if pivot \<noteq> pivot_row then row_swap_at h M pivot pivot_row else h);
                  pivot_val = ent (h ! M) pivot_row col;
                  pivot_cols = pivot_cols @ [col];
                  h = eliminate_at m h M pivot_row col pivot_val
              in ref_loop_at m cs h M (pivot_row + 1) pivot_cols)))"

text \<open>
  \<open>ref_at h A\<close> is the call \<^verbatim>\<open>ref(A)\<close> in the store \<open>h\<close>: it returns the store after the
  call, the address of the returned matrix and the pivot columns.
\<close>

definition ref_at :: "heap \<Rightarrow> nat \<Rightarrow> heap \<times> nat \<times> nat list" where
  "ref_at h A =
     (let (h, M) = copy_at h A;
          m = rows (h ! M); n = cols (h ! M);
          (h, pivot_cols) = ref_loop_at m [0..<n] h M 0 []
      in (h, M, pivot_cols))"

text \<open>
  \<^verbatim>\<open>back_substitution\<close> has no assignment to \<^verbatim>\<open>Ab\<close> and calls no in-place operation
  on it. The slices \<^verbatim>\<open>Ab[i, :]\<close> and \<^verbatim>\<open>row[:, :n_vars]\<close> of the inconsistency check are
  new matrix objects; everything else reads entries of \<^verbatim>\<open>Ab\<close> and builds the lists
  \<^verbatim>\<open>pivot_col_for_row\<close>, \<^verbatim>\<open>free_cols\<close> and \<^verbatim>\<open>x\<close>, which are the function's own. The
  inconsistency loop returns the store and whether it met an inconsistent row (where
  the source raises).
\<close>

definition row_slice_at :: "heap \<Rightarrow> nat \<Rightarrow> nat \<Rightarrow> heap \<times> nat" where
  "row_slice_at h a i = (h @ [row_slice (h ! a) i], length h)"

definition cols_upto_at :: "heap \<Rightarrow> nat \<Rightarrow> nat \<Rightarrow> heap \<times> nat" where
  "cols_upto_at h a n = (h @ [cols_upto (h ! a) n], length h)"

definition is_inconsistent_row_at :: "heap \<Rightarrow> nat \<Rightarrow> nat \<Rightarrow> heap \<times> bool" where
  "is_inconsistent_row_at h row n_vars =
     (let (h, left) = cols_upto_at h row n_vars;
          b = ent (h ! row) 0 n_vars
      in (h, list_all (\<lambda>j. ent (h ! left) 0 j = 0) [0..<n_vars] \<and> b \<noteq> 0))"

fun inconsistency_check_at :: "nat list \<Rightarrow> heap \<Rightarrow> nat \<Rightarrow> nat \<Rightarrow> heap \<times> bool" where
  "inconsistency_check_at [] h Ab n_vars = (h, False)"
| "inconsistency_check_at (i # is) h Ab n_vars =
     (let (h, row) = row_slice_at h Ab i;
          (h, bad) = is_inconsistent_row_at h row n_vars
      in if bad then (h, True) else inconsistency_check_at is h Ab n_vars)"

definition back_substitution_at ::
    "heap \<Rightarrow> nat \<Rightarrow> nat \<Rightarrow> heap \<times> (expr list \<times> nat list) outcome" where
  "back_substitution_at h Ab n_vars =
     (let m = rows (h ! Ab); total_cols = cols (h ! Ab) in
      if total_cols \<noteq> n_vars + 1 then
        (h, Raise (InputError ''Augmented matrix has wrong number of columns.''))
      else
        (let (h, bad) = inconsistency_check_at [0..<m] h Ab n_vars in
         if bad then
           (h, Raise (InputError ''System is inconsistent (row of form 0=nonzero). No solution.''))
         else
           (let (pivot_col_for_row, pivot_cols) = pivot_scan (h ! Ab) n_vars;
                free_cols = filter (\<lambda>j. j \<notin> pivot_cols) [0..<n_vars];
                x = bind_free n_vars free_cols;
                x = back_substitute (h ! Ab) n_vars pivot_col_for_row x
            in (h, Return (x, free_cols)))))"

section \<open>Notions used to state the properties\<close>

text \<open>
  The column of the leading (first nonzero) entry of a row, over all columns of the
  matrix; \<open>None\<close> for a zero row.
\<close>

definition leading :: "matrix \<Rightarrow> nat \<Rightarrow> nat option" where
  "leading M i = find (\<lambda>j. ent M i j \<noteq> 0) [0..<cols M]"

text \<open>
  Row echelon form: the leading entry of every nonzero row lies strictly to the right of
  the leading entry of each row above it, and no nonzero row stands below a zero row.
\<close>

definition echelon :: "matrix \<Rightarrow> bool" where
  "echelon M =
     (\<forall>k\<in>{0..<rows M}. \<forall>i\<in>{0..<k}.
        case leading M k of
          None \<Rightarrow> True
        | Some pk \<Rightarrow> (case leading M i of None \<Rightarrow> False | Some pj \<Rightarrow> pj < pk))"

text \<open>
  An expression all of whose divisions are by a nonzero rational constant, and the value
  of such an expression as a plain rational.
\<close>

fun divisors_nonzero :: "expr \<Rightarrow> bool" where
  "divisors_nonzero (Num q) = True"
| "divisors_nonzero (Sym k) = True"
| "divisors_nonzero (Sub a b) = (divisors_nonzero a \<and> divisors_nonzero b)"
| "divisors_nonzero (Mul a b) = (divisors_nonzero a \<and> divisors_nonzero b)"
| "divisors_nonzero (Div a b) =
     (divisors_nonzero a \<and> (case b of Num q \<Rightarrow> q \<noteq> 0 | _ \<Rightarrow> False))"

fun val :: "(nat \<Rightarrow> rat) \<Rightarrow> expr \<Rightarrow> rat" where
  "val \<rho> (Num q) = q"
| "val \<rho> (Sym k) = \<rho> k"
| "val \<rho> (Sub a b) = val \<rho> a - val \<rho> b"
| "val \<rho> (Mul a b) = val \<rho> a * val \<rho> b"
| "val \<rho> (Div a b) = val \<rho> a / val \<rho> b"

text \<open>Row \<open>i\<close> of the system holds for the values of \<open>x\<close> under the valuation \<open>\<rho>\<close>.\<close>

definition row_holds :: "matrix \<Rightarrow> nat \<Rightarrow> (nat \<Rightarrow> rat) \<Rightarrow> expr list \<Rightarrow> nat \<Rightarrow> bool" where
  "row_holds Ab n \<rho> x i = ((\<Sum>j<n. ent Ab i j * val \<rho> (x ! j)) = ent Ab i n)"

text \<open>The columns of the leading entries of the nonzero rows, from the first row to the last.\<close>

definition leading_columns :: "matrix \<Rightarrow> nat list" where
  "leading_columns M = List.map_filter (leading M) [0..<rows M]"

text \<open>
  The invariant of the loop of \<open>ref\<close> before column \<open>c\<close> is looked at, with \<open>pr\<close> pivots
  found so far, and what it leaves when the loop ends.
\<close>

definition ref_inv :: "nat \<Rightarrow> nat \<Rightarrow> matrix \<Rightarrow> nat \<Rightarrow> nat list \<Rightarrow> nat \<Rightarrow> bool" where
  "ref_inv m n M pr pcs c =
     (rows M = m \<and> cols M = n \<and> pr \<le> m \<and> pr \<le> c \<and> length pcs = pr
      \<and> sorted_wrt (<) pcs \<and> (\<forall>p\<in>set pcs. p < c)
      \<and> (\<forall>k<pr. ent M k (pcs ! k) \<noteq> 0 \<and> (\<forall>j<pcs ! k. ent M k j = 0))
      \<and> (\<forall>r. pr \<le> r \<and> r < m \<longrightarrow> (\<forall>j<c. ent M r j = 0)))"

definition ref_post :: "nat \<Rightarrow> nat \<Rightarrow> matrix \<Rightarrow> nat list \<Rightarrow> bool" where
  "ref_post m n R pcs =
     (rows R = m \<and> cols R = n \<and> length pcs \<le> m \<and> length pcs \<le> n
      \<and> sorted_wrt (<) pcs \<and> (\<forall>p\<in>set pcs. p < n)
      \<and> (\<forall>k<length pcs. ent R k (pcs ! k) \<noteq> 0 \<and> (\<forall>j<pcs ! k. ent R k j = 0))
      \<and> (\<forall>r. length pcs \<le> r \<and> r < m \<longrightarrow> (\<forall>j<n. ent R r j = 0)))"

text \<open>
  Linear algebra over the rows of a matrix. A vector (its entries below \<open>cols M\<close>) is in
  the row space when it is a linear combination of the rows; the rank is the dimension
  of the row space, the least number of rows of a matrix with the same row space.
\<close>

definition in_row_space :: "matrix \<Rightarrow> (nat \<Rightarrow> rat) \<Rightarrow> bool" where
  "in_row_space M f = (\<exists>c. \<forall>j<cols M. f j = (\<Sum>i<rows M. c i * ent M i j))"

definition row_space :: "matrix \<Rightarrow> rat list set" where
  "row_space M = {v. length v = cols M \<and> in_row_space M ((!) v)}"

definition rank :: "matrix \<Rightarrow> nat" where
  "rank M = (LEAST k. \<exists>B. rows B = k \<and> cols B = cols M \<and> row_space B = row_space M)"

text \<open>
  \<open>x\<close> solves the system with coefficient matrix \<open>M\<close> and right-hand side \<open>b\<close>. For an
  augmented matrix \<open>[C | b]\<close>, \<open>coefficients\<close> is \<open>C\<close> and \<open>rhs_column\<close> is \<open>b\<close>.
\<close>

definition solves :: "matrix \<Rightarrow> rat list \<Rightarrow> rat list \<Rightarrow> bool" where
  "solves M b x =
     (length x = cols M \<and> (\<forall>i\<in>{0..<rows M}. (\<Sum>j<cols M. ent M i j * x ! j) = b ! i))"

definition coefficients :: "matrix \<Rightarrow> matrix" where
  "coefficients M = cols_upto M (cols M - 1)"

definition rhs_column :: "matrix \<Rightarrow> rat list" where
  "rhs_column M = map (\<lambda>i. ent M i (cols M - 1)) [0..<rows M]"

section \<open>Error paths of back substitution\<close>

lemma is_inconsistent_row_slice:
  "is_inconsistent_row (row_slice Ab i) n_vars
     = ((\<forall>j<n_vars. ent Ab i j = 0) \<and> ent Ab i n_vars \<noteq> 0)"
  by (auto simp: is_inconsistent_row_def row_slice_def cols_upto_def list_all_iff)

lemma some_row_inconsistent:
  "list_ex (\<lambda>i. is_inconsistent_row (row_slice Ab i) n_vars) [0..<rows Ab]
     = (\<exists>i<rows Ab. (\<forall>j<n_vars. ent Ab i j = 0) \<and> ent Ab i n_vars \<noteq> 0)"
  by (auto simp: list_ex_iff is_inconsistent_row_slice)

text \<open>
  C8. \<open>back_substitution\<close> raises the malformed-input error exactly when the matrix does
  not have \<open>n_vars + 1\<close> columns; nothing else is looked at before: whatever the rows
  hold, a matrix of the wrong width gets this error and no other outcome.
\<close>

theorem malformed_iff_wrong_width:
  "(back_substitution Ab n_vars = Raise wrong_columns) = (cols Ab \<noteq> n_vars + 1)"
  by (simp add: back_substitution_def Let_def split: prod.splits)

theorem malformed_iff_wrong_width_witness:
  "cols (Matrix [[0, 5, 7]]) \<noteq> 1 + 1
   \<and> is_inconsistent_row (row_slice (Matrix [[0, 5, 7]]) 0) 1
   \<and> back_substitution (Matrix [[0, 5, 7]]) 1 = Raise wrong_columns"
proof -
  have c: "cols (Matrix [[0, 5, 7]]) \<noteq> 1 + 1" by (simp add: Matrix_def)
  have i: "is_inconsistent_row (row_slice (Matrix [[0, 5, 7]]) 0) 1"
    by (simp add: is_inconsistent_row_slice Matrix_def)
  from malformed_iff_wrong_width [of "Matrix [[0, 5, 7]]" 1] c i show ?thesis by simp
qed

text \<open>
  C4. For an augmented matrix of \<open>n_vars + 1\<close> columns, \<open>back_substitution\<close> reports the
  system inconsistent exactly when some row has its first \<open>n_vars\<close> entries zero and a
  nonzero last entry. The test looks at every row before any solving: one such row,
  wherever it is, ends the call with the error, and a solution is returned only when
  there is none.
\<close>

theorem inconsistent_iff_contradictory_row:
  assumes "cols Ab = n_vars + 1"
  shows "(back_substitution Ab n_vars = Raise inconsistent)
           = (\<exists>i<rows Ab. (\<forall>j<n_vars. ent Ab i j = 0) \<and> ent Ab i n_vars \<noteq> 0)
         \<and> ((\<exists>r. back_substitution Ab n_vars = Return r)
           = (\<not> (\<exists>i<rows Ab. (\<forall>j<n_vars. ent Ab i j = 0) \<and> ent Ab i n_vars \<noteq> 0)))"
  using assms
  by (simp add: back_substitution_def Let_def some_row_inconsistent split: prod.splits)

theorem inconsistent_iff_contradictory_row_witness:
  "cols (Matrix [[1, 2, 3, 4], [0, 0, 0, 5]]) = 3 + 1
   \<and> back_substitution (Matrix [[1, 2, 3, 4], [0, 0, 0, 5]]) 3 = Raise inconsistent"
proof -
  let ?M = "Matrix [[1, 2, 3, 4], [0, 0, 0, 5]]"
  have c: "cols ?M = 3 + 1" by (simp add: Matrix_def)
  have "\<forall>j<3. ent ?M 1 j = 0"
    by (simp add: Matrix_def less_Suc_eq numeral_3_eq_3)
  then have "\<exists>i<rows ?M. (\<forall>j<3. ent ?M i j = 0) \<and> ent ?M i 3 \<noteq> 0"
    by (intro exI[of _ 1]) (simp add: Matrix_def)
  with inconsistent_iff_contradictory_row [OF c] c show ?thesis by blast
qed

text \<open>
  C2, as stated: for every input the call comes back through \<^verbatim>\<open>return\<close>, the error
  kinds being result values. It does not: on the one-row system \<open>0 * x = 5\<close> the call
  leaves through \<^verbatim>\<open>raise InputError(...)\<close>.
\<close>

theorem inconsistent_system_raises:
  "back_substitution (Matrix [[0, 5]]) 1 = Raise inconsistent"
  by (simp add: back_substitution_def Matrix_def is_inconsistent_row_slice)

text \<open>
  C2, amended. Both error kinds are raised as \<^verbatim>\<open>InputError\<close> exceptions with different
  messages, and every call has exactly one of three outcomes: it raises the
  wrong-width error, it raises the inconsistency error, or it returns the pair of the
  solution and the free columns. A caller tells the three apart by catching
  \<^verbatim>\<open>InputError\<close> and reading its message.
\<close>

theorem error_kinds_are_raised:
  "(cols Ab \<noteq> n_vars + 1 \<longrightarrow> back_substitution Ab n_vars = Raise wrong_columns)
   \<and> (cols Ab = n_vars + 1
        \<and> (\<exists>i<rows Ab. (\<forall>j<n_vars. ent Ab i j = 0) \<and> ent Ab i n_vars \<noteq> 0)
      \<longrightarrow> back_substitution Ab n_vars = Raise inconsistent)
   \<and> (cols Ab = n_vars + 1
        \<and> \<not> (\<exists>i<rows Ab. (\<forall>j<n_vars. ent Ab i j = 0) \<and> ent Ab i n_vars \<noteq> 0)
      \<longrightarrow> (\<exists>x free_cols. back_substitution Ab n_vars = Return (x, free_cols)))
   \<and> wrong_columns \<noteq> inconsistent"
  by (simp add: back_substitution_def Let_def some_row_inconsistent split: prod.splits)

theorem error_kinds_are_raised_witness:
  "back_substitution (Matrix [[1, 2, 3]]) 1 = Raise wrong_columns
   \<and> back_substitution (Matrix [[0, 7]]) 1 = Raise inconsistent
   \<and> (\<exists>x free_cols. back_substitution (Matrix [[2, 4]]) 1 = Return (x, free_cols))"
proof -
  have a: "cols (Matrix [[1, 2, 3]]) \<noteq> 1 + 1"
    by (simp add: Matrix_def)
  have b: "cols (Matrix [[0, 7]]) = 1 + 1
             \<and> (\<exists>i<rows (Matrix [[0, 7]]).
                   (\<forall>j<1. ent (Matrix [[0, 7]]) i j = 0) \<and> ent (Matrix [[0, 7]]) i 1 \<noteq> 0)"
    by (simp add: Matrix_def)
  have c: "cols (Matrix [[2, 4]]) = 1 + 1
             \<and> \<not> (\<exists>i<rows (Matrix [[2, 4]]).
                   (\<forall>j<1. ent (Matrix [[2, 4]]) i j = 0) \<and> ent (Matrix [[2, 4]]) i 1 \<noteq> 0)"
    by (simp add: Matrix_def)
  have "back_substitution (Matrix [[1, 2, 3]]) 1 = Raise wrong_columns"
    by (rule error_kinds_are_raised [of "Matrix [[1, 2, 3]]" 1, THEN conjunct1, THEN mp, OF a])
  moreover have "back_substitution (Matrix [[0, 7]]) 1 = Raise inconsistent"
    by (rule error_kinds_are_raised [of "Matrix [[0, 7]]" 1,
          THEN conjunct2, THEN conjunct1, THEN mp, OF b])
  moreover have "\<exists>x free_cols. back_substitution (Matrix [[2, 4]]) 1 = Return (x, free_cols)"
    by (rule error_kinds_are_raised [of "Matrix [[2, 4]]" 1,
          THEN conjunct2, THEN conjunct2, THEN conjunct1, THEN mp, OF c])
  ultimately show ?thesis by (intro conjI)
qed

section \<open>The pivot scan and the free columns\<close>

lemma first_nonzero_Some:
  "first_nonzero Ab n i = Some j \<longleftrightarrow> j < n \<and> ent Ab i j \<noteq> 0 \<and> (\<forall>k<j. ent Ab i k = 0)"
  by (auto simp: first_nonzero_def find_Some_iff)

lemma first_nonzero_None:
  "first_nonzero Ab n i = None \<longleftrightarrow> (\<forall>j<n. ent Ab i j = 0)"
  by (auto simp: first_nonzero_def find_None_iff)

lemma pivot_scan_upto:
  "k \<le> m \<Longrightarrow>
   fold (\<lambda>i (pivot_col_for_row, pivot_cols).
             case first_nonzero Ab n i of
               None \<Rightarrow> (pivot_col_for_row, pivot_cols)
             | Some j \<Rightarrow> (pivot_col_for_row[i := Some j], insert j pivot_cols))
        [0..<k] (replicate m None, {})
   = (map (\<lambda>i. if i < k then first_nonzero Ab n i else None) [0..<m],
      {j. \<exists>i<k. first_nonzero Ab n i = Some j})"
proof (induction k)
  case 0
  show ?case by (simp add: map_replicate_trivial [symmetric] del: map_replicate_trivial) 
next
  case (Suc k)
  then have IH: "fold (\<lambda>i (pivot_col_for_row, pivot_cols).
             case first_nonzero Ab n i of
               None \<Rightarrow> (pivot_col_for_row, pivot_cols)
             | Some j \<Rightarrow> (pivot_col_for_row[i := Some j], insert j pivot_cols))
        [0..<k] (replicate m None, {})
   = (map (\<lambda>i. if i < k then first_nonzero Ab n i else None) [0..<m],
      {j. \<exists>i<k. first_nonzero Ab n i = Some j})" and km: "k < m" by simp_all
  show ?case
  proof (cases "first_nonzero Ab n k")
    case None
    have "map (\<lambda>i. if i < k then first_nonzero Ab n i else None) [0..<m]
        = map (\<lambda>i. if i < Suc k then first_nonzero Ab n i else None) [0..<m]"
      using None by (auto simp: less_Suc_eq)
    moreover have "{j. \<exists>i<k. first_nonzero Ab n i = Some j}
        = {j. \<exists>i<Suc k. first_nonzero Ab n i = Some j}"
      using None by (auto simp: less_Suc_eq)
    ultimately show ?thesis using None IH by simp
  next
    case (Some j)
    have "(map (\<lambda>i. if i < k then first_nonzero Ab n i else None) [0..<m])[k := Some j]
        = map (\<lambda>i. if i < Suc k then first_nonzero Ab n i else None) [0..<m]"
      using Some km by (auto intro!: nth_equalityI simp: nth_list_update less_Suc_eq)
    moreover have "insert j {j. \<exists>i<k. first_nonzero Ab n i = Some j}
        = {j. \<exists>i<Suc k. first_nonzero Ab n i = Some j}"
      using Some by (auto simp: less_Suc_eq)
    ultimately show ?thesis using Some IH by simp
  qed
qed

lemma pivot_scan_eq:
  "pivot_scan Ab n = (map (first_nonzero Ab n) [0..<rows Ab],
                      {j. \<exists>i<rows Ab. first_nonzero Ab n i = Some j})"
  unfolding pivot_scan_def by (subst pivot_scan_upto) (auto)

lemma eval_val: "divisors_nonzero e \<Longrightarrow> eval \<rho> e = Some (val \<rho> e)"
  by (induction e) (auto split: expr.splits)

subsection \<open>bind_free\<close>

lemma bind_fold_length:
  "length (fold (\<lambda>(k, j) x. x[j := t ! k]) ps x) = length x"
  by (induction ps arbitrary: x) (auto)

lemma bind_fold_other:
  "j \<notin> snd ` set ps \<Longrightarrow> fold (\<lambda>(k, j) x. x[j := t ! k]) ps x ! j = x ! j"
  by (induction ps arbitrary: x) (auto)

lemma bind_fold_nth:
  "distinct js \<Longrightarrow> \<forall>j\<in>set js. j < length x \<Longrightarrow> k < length js \<Longrightarrow>
   fold (\<lambda>(k, j) x. x[j := t ! k]) (enumerate s js) x ! (js ! k) = t ! (s + k)"
proof (induction js arbitrary: s x k)
  case Nil
  then show ?case by simp
next
  case (Cons j js)
  show ?case
  proof (cases k)
    case 0
    have "j \<notin> snd ` set (enumerate (Suc s) js)"
      using Cons.prems(1) by (auto simp: in_set_enumerate_eq)
    then show ?thesis using 0 Cons.prems(2)
      by (simp add: bind_fold_other)
  next
    case (Suc k')
    then show ?thesis using Cons.prems Cons.IH [of "x[j := t ! s]" k' "Suc s"]
      by simp
  qed
qed

lemma bind_free_length: "length (bind_free n fc) = n"
  by (simp add: bind_free_def bind_fold_length)

lemma bind_free_nth:
  assumes "distinct fc" "\<forall>j\<in>set fc. j < n" "k < length fc"
  shows "bind_free n fc ! (fc ! k) = Sym k"
  using assms bind_fold_nth [of fc "replicate n (Num 0)" k "symbols (length fc)" 0]
  by (simp add: bind_free_def symbols_def)

lemma bind_free_other:
  assumes "j \<notin> set fc" "j < n"
  shows "bind_free n fc ! j = Num 0"
proof -
  have "j \<notin> snd ` set (enumerate 0 fc)"
    using assms(1) by (auto simp: in_set_enumerate_eq)
  then show ?thesis using assms(2) by (simp add: bind_free_def bind_fold_other)
qed

lemma bind_free_safe:
  assumes "distinct fc" "\<forall>j\<in>set fc. j < n" "j < n"
  shows "divisors_nonzero (bind_free n fc ! j)"
proof (cases "j \<in> set fc")
  case True
  then obtain k where "k < length fc" "fc ! k = j" by (auto simp: in_set_conv_nth)
  then show ?thesis using bind_free_nth [OF assms(1,2), of k] by simp
next
  case False
  then show ?thesis using assms(3) by (simp add: bind_free_other)
qed

subsection \<open>solve_row\<close>

lemma subtract_known_safe:
  assumes "\<forall>j<n. divisors_nonzero (x ! j)"
  shows "divisors_nonzero (subtract_known Ab n i pc x)"
proof -
  have "\<And>e. divisors_nonzero e \<Longrightarrow> hi \<le> n \<Longrightarrow>
      divisors_nonzero (fold (\<lambda>j rhs. simplify (Sub rhs (Mul (Num (ent Ab i j)) (x ! j))))
          [lo..<hi] e)" for lo hi
    using assms by (induction hi) (auto simp: simplify_def)
  then show ?thesis by (simp add: subtract_known_def)
qed

lemma subtract_known_val:
  "val \<rho> (subtract_known Ab n i pc x)
     = ent Ab i n - (\<Sum>j = pc + 1..<n. ent Ab i j * val \<rho> (x ! j))"
proof -
  have "val \<rho> (fold (\<lambda>j rhs. simplify (Sub rhs (Mul (Num (ent Ab i j)) (x ! j))))
          [lo..<hi] e) = val \<rho> e - (\<Sum>j = lo..<hi. ent Ab i j * val \<rho> (x ! j))" for lo hi e
    by (induction hi) (auto simp: simplify_def)
  then show ?thesis by (simp add: subtract_known_def)
qed

lemma solve_row_length: "length (solve_row Ab n pcr i x) = length x"
  by (simp add: solve_row_def Let_def split: option.splits)

lemma solve_row_safe:
  assumes "\<forall>j<n. divisors_nonzero (x ! j)" "length x = n"
    and "\<And>pc. pcr ! i = Some pc \<Longrightarrow> ent Ab i pc \<noteq> 0"
  shows "\<forall>j<n. divisors_nonzero (solve_row Ab n pcr i x ! j)"
proof (cases "pcr ! i")
  case None
  then show ?thesis using assms(1) by (simp add: solve_row_def)
next
  case (Some pc)
  let ?e = "Div (subtract_known Ab n i pc x) (Num (ent Ab i pc))"
  have e: "divisors_nonzero ?e"
    using subtract_known_safe [OF assms(1), of Ab i pc] assms(3) [OF Some] by simp
  have "divisors_nonzero (x[pc := ?e] ! j)" if "j < n" for j
    using that e assms(1,2) by (cases "pc = j") auto
  then show ?thesis using Some by (simp add: solve_row_def simplify_def)
qed

lemma solve_row_other:
  "pcr ! i \<noteq> Some j \<Longrightarrow> solve_row Ab n pcr i x ! j = x ! j"
  by (auto simp: solve_row_def Let_def split: option.splits)

lemma back_fold_length:
  "length (fold (solve_row Ab n pcr) is x) = length x"
  by (induction "is" arbitrary: x) (auto simp: solve_row_length)

lemma back_fold_safe:
  assumes "\<forall>j<n. divisors_nonzero (x ! j)" "length x = n"
    and "\<And>i pc. i \<in> set is \<Longrightarrow> pcr ! i = Some pc \<Longrightarrow> ent Ab i pc \<noteq> 0"
  shows "\<forall>j<n. divisors_nonzero (fold (solve_row Ab n pcr) is x ! j)"
  using assms
proof (induction "is" arbitrary: x)
  case Nil
  then show ?case by simp
next
  case (Cons i "is")
  have "\<forall>j<n. divisors_nonzero (solve_row Ab n pcr i x ! j)"
    using Cons.prems by (intro solve_row_safe) auto
  then show ?case using Cons by (simp add: solve_row_length)
qed

lemma back_fold_other:
  assumes "\<And>i. i \<in> set is \<Longrightarrow> pcr ! i \<noteq> Some j"
  shows "fold (solve_row Ab n pcr) is x ! j = x ! j"
  using assms by (induction "is" arbitrary: x) (auto simp: solve_row_other)

lemma back_substitution_Return:
  assumes "back_substitution Ab n = Return (x, fc)"
  shows "cols Ab = n + 1"
    and "fc = filter (\<lambda>j. j \<notin> snd (pivot_scan Ab n)) [0..<n]"
    and "x = back_substitute Ab n (fst (pivot_scan Ab n)) (bind_free n fc)"
    and "\<forall>i<rows Ab. (\<forall>j<n. ent Ab i j = 0) \<longrightarrow> ent Ab i n = 0"
  using assms
  by (auto simp: back_substitution_def Let_def some_row_inconsistent split: if_splits prod.splits)

lemma free_cols_props:
  assumes "fc = filter (\<lambda>j. j \<notin> P) [0..<n]"
  shows "distinct fc" "\<forall>j\<in>set fc. j < n" "sorted_wrt (<) fc" "set fc = {j. j < n \<and> j \<notin> P}"
  using assms by (auto simp: sorted_wrt_filter)

text \<open>
  C7. When \<open>back_substitution\<close> returns, the free columns are exactly the columns below
  \<open>n_vars\<close> that the pivot scan did not record (the recorded ones being the columns of
  the first nonzero coefficient of some row), they are listed in increasing order, and
  the \<open>k\<close>-th of them holds the symbol \<^verbatim>\<open>tk\<close> in the returned solution vector.
\<close>

theorem free_columns_hold_their_symbols:
  assumes "back_substitution Ab n_vars = Return (x, free_cols)"
  shows "set free_cols = {j. j < n_vars \<and> j \<notin> snd (pivot_scan Ab n_vars)}
       \<and> snd (pivot_scan Ab n_vars)
           = {j. \<exists>i<rows Ab. j < n_vars \<and> ent Ab i j \<noteq> 0 \<and> (\<forall>k<j. ent Ab i k = 0)}
       \<and> sorted_wrt (<) free_cols
       \<and> length x = n_vars
       \<and> (\<forall>k<length free_cols. x ! (free_cols ! k) = Sym k)"
proof -
  note r = back_substitution_Return [OF assms]
  note f = free_cols_props [OF r(2)]
  have piv: "snd (pivot_scan Ab n_vars)
           = {j. \<exists>i<rows Ab. j < n_vars \<and> ent Ab i j \<noteq> 0 \<and> (\<forall>k<j. ent Ab i k = 0)}"
    by (auto simp: pivot_scan_eq first_nonzero_Some)
  have len: "length x = n_vars"
    by (simp add: r(3) back_substitute_def back_fold_length bind_free_length)
  have "x ! (free_cols ! k) = Sym k" if k: "k < length free_cols" for k
  proof -
    have "free_cols ! k \<in> set free_cols" using k by simp
    then have notpiv: "free_cols ! k \<notin> snd (pivot_scan Ab n_vars)" using f(4) by simp
    have "fst (pivot_scan Ab n_vars) ! i \<noteq> Some (free_cols ! k)" if "i \<in> set (rev [0..<rows Ab])" for i
      using that notpiv by (auto simp: pivot_scan_eq)
    then have "x ! (free_cols ! k) = bind_free n_vars free_cols ! (free_cols ! k)"
      unfolding r(3) back_substitute_def by (rule back_fold_other)
    also have "\<dots> = Sym k" using f(1,2) k by (rule bind_free_nth)
    finally show ?thesis .
  qed
  with f(3,4) piv len show ?thesis by blast
qed

theorem free_columns_hold_their_symbols_witness:
  "back_substitution (Matrix [[1, 1, 0, 2]]) 3
     = Return ([Div (Sub (Sub (Num 2) (Mul (Num 1) (Sym 0))) (Mul (Num 0) (Sym 1))) (Num 1),
                Sym 0, Sym 1], [1, 2])
   \<and> set [1, 2] = {j. j < 3 \<and> j \<notin> snd (pivot_scan (Matrix [[1, 1, 0, 2]]) 3)}
   \<and> sorted_wrt (<) [1, 2 :: nat]
   \<and> [Div (Sub (Sub (Num 2) (Mul (Num 1) (Sym 0))) (Mul (Num 0) (Sym 1))) (Num 1),
       Sym 0, Sym 1] ! ([1, 2] ! 0) = Sym 0
   \<and> [Div (Sub (Sub (Num 2) (Mul (Num 1) (Sym 0))) (Mul (Num 0) (Sym 1))) (Num 1),
       Sym 0, Sym 1] ! ([1, 2] ! 1) = Sym 1"
proof -
  let ?X = "[Div (Sub (Sub (Num 2) (Mul (Num 1) (Sym 0))) (Mul (Num 0) (Sym 1))) (Num 1),
             Sym 0, Sym 1]"
  have r: "back_substitution (Matrix [[1, 1, 0, 2]]) 3 = Return (?X, [1, 2])"
    by code_simp
  note t = free_columns_hold_their_symbols [OF r]
  have "\<forall>k<length [1, 2 :: nat]. ?X ! ([1, 2] ! k) = Sym k"
    using t by (elim conjE)
  then have "?X ! ([1, 2] ! 0) = Sym 0" "?X ! ([1, 2] ! 1) = Sym 1"
    by simp_all
  moreover have "set [1, 2] = {j. j < 3 \<and> j \<notin> snd (pivot_scan (Matrix [[1, 1, 0, 2]]) 3)}"
    using t by (elim conjE)
  moreover have "sorted_wrt (<) [1, 2 :: nat]"
    using t by (elim conjE)
  ultimately show ?thesis using r by (intro conjI)
qed

text \<open>
  C9. For any matrix, echelon or not: the pivot scan records column \<open>pc\<close> for row \<open>i\<close>
  only when \<open>Ab[i, pc]\<close> is nonzero, so every division of the back substitution is by a
  nonzero rational, and each entry of a returned solution has a value under every
  valuation of the parameters (\<open>eval\<close> gives no value to a division by zero).
\<close>

theorem pivot_divisor_nonzero:
  "(\<forall>i<rows Ab. \<forall>pc. fst (pivot_scan Ab n_vars) ! i = Some pc
        \<longrightarrow> pc < n_vars \<and> ent Ab i pc \<noteq> 0)
   \<and> (\<forall>x free_cols \<rho>. back_substitution Ab n_vars = Return (x, free_cols)
        \<longrightarrow> length x = n_vars \<and> (\<forall>j<n_vars. \<exists>v. eval \<rho> (x ! j) = Some v))"
proof -
  have piv: "pc < n_vars \<and> ent Ab i pc \<noteq> 0"
    if "i < rows Ab" "fst (pivot_scan Ab n_vars) ! i = Some pc" for i pc
    using that by (simp add: pivot_scan_eq first_nonzero_Some)
  have "length x = n_vars \<and> (\<forall>j<n_vars. \<exists>v. eval \<rho> (x ! j) = Some v)"
    if ret: "back_substitution Ab n_vars = Return (x, free_cols)" for x free_cols \<rho>
  proof -
    note r = back_substitution_Return [OF ret]
    note f = free_cols_props [OF r(2)]
    have x0: "\<forall>j<n_vars. divisors_nonzero (bind_free n_vars free_cols ! j)"
      using bind_free_safe [OF f(1,2)] by blast
    have "\<forall>j<n_vars. divisors_nonzero (x ! j)"
      unfolding r(3) back_substitute_def
      using x0 by (rule back_fold_safe) (use piv in \<open>auto simp: bind_free_length\<close>)
    moreover have "length x = n_vars"
      by (simp add: r(3) back_substitute_def back_fold_length bind_free_length)
    ultimately show ?thesis by (auto simp: eval_val)
  qed
  with piv show ?thesis by blast
qed

theorem pivot_divisor_nonzero_witness:
  "fst (pivot_scan (Matrix [[0, 2, 4], [3, 0, 6]]) 2) ! 0 = Some 1
   \<and> ent (Matrix [[0, 2, 4], [3, 0, 6]]) 0 1 \<noteq> 0
   \<and> back_substitution (Matrix [[0, 2, 4], [3, 0, 6]]) 2
       = Return ([Div (Sub (Num 6) (Mul (Num 0) (Num 0))) (Num 3), Div (Num 4) (Num 2)], [])
   \<and> (\<exists>v. eval (\<lambda>k. 0)
             ([Div (Sub (Num 6) (Mul (Num 0) (Num 0))) (Num 3), Div (Num 4) (Num 2)] ! 0)
           = Some v)"
proof -
  let ?M = "Matrix [[0, 2, 4], [3, 0, 6]]"
  let ?X = "[Div (Sub (Num 6) (Mul (Num 0) (Num 0))) (Num 3), Div (Num 4) (Num 2)]"
  note t = pivot_divisor_nonzero [of ?M 2]
  have a: "fst (pivot_scan ?M 2) ! 0 = Some 1" by code_simp
  have m: "0 < rows ?M" by (simp add: Matrix_def)
  have r: "back_substitution ?M 2 = Return (?X, [])" by code_simp
  have "ent ?M 0 1 \<noteq> 0"
    using t [THEN conjunct1, rule_format, OF m a] by simp
  moreover have "\<exists>v. eval (\<lambda>k. 0) (?X ! 0) = Some v"
    using t [THEN conjunct2, rule_format, OF r, of "\<lambda>k. 0", THEN conjunct2, rule_format, of 0]
    by simp
  ultimately show ?thesis using a r by simp
qed

section \<open>Back substitution solves an echelon system\<close>

lemma leading_Some:
  "leading M i = Some j \<longleftrightarrow> j < cols M \<and> ent M i j \<noteq> 0 \<and> (\<forall>k<j. ent M i k = 0)"
  by (auto simp: leading_def find_Some_iff)

lemma leading_None:
  "leading M i = None \<longleftrightarrow> (\<forall>j<cols M. ent M i j = 0)"
  by (auto simp: leading_def find_None_iff)

lemma echelonD:
  assumes "echelon M" "i < k" "k < rows M" "leading M k = Some pk"
  shows "\<exists>pj. leading M i = Some pj \<and> pj < pk"
proof -
  have "case leading M k of None \<Rightarrow> True
        | Some pk \<Rightarrow> (case leading M i of None \<Rightarrow> False | Some pj \<Rightarrow> pj < pk)"
    using assms(1,2,3) by (simp add: echelon_def)
  then show ?thesis using assms(4) by (simp split: option.splits)
qed

text \<open>In a consistent augmented matrix the leading entry of a row lies in the coefficient part.\<close>

lemma leading_first_nonzero:
  assumes "cols Ab = n + 1" "(\<forall>j<n. ent Ab i j = 0) \<longrightarrow> ent Ab i n = 0"
  shows "first_nonzero Ab n i = leading Ab i"
proof (cases "first_nonzero Ab n i")
  case None
  then have "\<forall>j<n. ent Ab i j = 0" by (simp add: first_nonzero_None)
  with assms have "\<forall>j<cols Ab. ent Ab i j = 0" by (auto simp: less_Suc_eq)
  then have "leading Ab i = None" by (simp add: leading_None)
  then show ?thesis using None by simp
next
  case (Some p)
  then have "leading Ab i = Some p"
    using assms(1) by (auto simp: first_nonzero_Some leading_Some)
  then show ?thesis using Some by simp
qed

lemma sum_split_at:
  fixes f :: "nat \<Rightarrow> rat"
  assumes "pc < n"
  shows "(\<Sum>j<n. f j) = (\<Sum>j<pc. f j) + f pc + (\<Sum>j = pc + 1..<n. f j)"
proof -
  have "(\<Sum>j<n. f j) = (\<Sum>j = 0..<pc. f j) + (\<Sum>j = pc..<n. f j)"
    using assms by (simp add: lessThan_atLeast0 sum.atLeastLessThan_concat)
  also have "(\<Sum>j = pc..<n. f j) = f pc + (\<Sum>j = pc + 1..<n. f j)"
    using assms by (simp add: sum.atLeast_Suc_lessThan)
  finally show ?thesis by (simp add: lessThan_atLeast0)
qed

lemma sum_update_at:
  fixes a :: "nat \<Rightarrow> rat"
  assumes "pc < n" "length x = n"
  shows "(\<Sum>j<n. a j * val \<rho> (x[pc := e] ! j))
         = (\<Sum>j<n. a j * val \<rho> (x ! j)) + a pc * (val \<rho> e - val \<rho> (x ! pc))"
proof -
  have "(\<Sum>j<n. a j * val \<rho> (x[pc := e] ! j))
        = (\<Sum>j<n. a j * val \<rho> (x ! j) + (if j = pc then a pc * (val \<rho> e - val \<rho> (x ! pc)) else 0))"
    using assms by (intro sum.cong) (auto simp: nth_list_update algebra_simps)
  also have "\<dots> = (\<Sum>j<n. a j * val \<rho> (x ! j)) + a pc * (val \<rho> e - val \<rho> (x ! pc))"
    using assms(1) by (simp add: sum.distrib)
  finally show ?thesis .
qed

lemma solve_row_keeps:
  assumes "length x = n" "row_holds Ab n \<rho> x i"
    and "\<And>pc. pcr ! k = Some pc \<Longrightarrow> pc < n \<and> ent Ab i pc = 0"
  shows "row_holds Ab n \<rho> (solve_row Ab n pcr k x) i"
proof (cases "pcr ! k")
  case None
  then show ?thesis using assms(2) by (simp add: solve_row_def)
next
  case (Some pc)
  with assms(3) have "pc < n" "ent Ab i pc = 0" by auto
  then show ?thesis
    using assms(1,2) Some
    by (simp add: solve_row_def row_holds_def sum_update_at)
qed

lemma solve_row_solves:
  assumes "length x = n"
    and "pcr ! k = first_nonzero Ab n k"
    and "(\<forall>j<n. ent Ab k j = 0) \<longrightarrow> ent Ab k n = 0"
  shows "row_holds Ab n \<rho> (solve_row Ab n pcr k x) k"
proof (cases "first_nonzero Ab n k")
  case None
  then have z: "\<forall>j<n. ent Ab k j = 0" by (simp add: first_nonzero_None)
  with assms(3) have "ent Ab k n = 0" by simp
  then show ?thesis using z None assms(2) by (simp add: solve_row_def row_holds_def)
next
  case (Some pc)
  then have pc: "pc < n" "ent Ab k pc \<noteq> 0" "\<forall>j<pc. ent Ab k j = 0"
    by (simp_all add: first_nonzero_Some)
  let ?S = "\<Sum>j = pc + 1..<n. ent Ab k j * val \<rho> (x ! j)"
  let ?e = "Div (subtract_known Ab n k pc x) (Num (ent Ab k pc))"
  have ve: "ent Ab k pc * val \<rho> ?e = ent Ab k n - ?S"
    using pc(2) by (simp add: subtract_known_val)
  have "(\<Sum>j<n. ent Ab k j * val \<rho> (x ! j))
        = (\<Sum>j<pc. ent Ab k j * val \<rho> (x ! j)) + ent Ab k pc * val \<rho> (x ! pc) + ?S"
    using pc(1) by (rule sum_split_at)
  also have "(\<Sum>j<pc. ent Ab k j * val \<rho> (x ! j)) = 0"
    using pc(3) by simp
  finally have old: "(\<Sum>j<n. ent Ab k j * val \<rho> (x ! j)) = ent Ab k pc * val \<rho> (x ! pc) + ?S"
    by simp
  have "(\<Sum>j<n. ent Ab k j * val \<rho> (x[pc := ?e] ! j))
        = ent Ab k pc * val \<rho> (x ! pc) + ?S + ent Ab k pc * (val \<rho> ?e - val \<rho> (x ! pc))"
    using pc(1) assms(1) old by (simp only: sum_update_at)
  also have "\<dots> = ?S + ent Ab k pc * val \<rho> ?e"
    by (simp add: algebra_simps)
  also have "\<dots> = ent Ab k n" by (simp only: ve)
  finally show ?thesis
    using Some assms(2) by (simp add: solve_row_def row_holds_def simplify_def)
qed

lemma back_fold_solves:
  assumes ech: "\<And>i k pk. i < k \<Longrightarrow> k < rows Ab \<Longrightarrow> first_nonzero Ab n k = Some pk
              \<Longrightarrow> \<exists>pj. first_nonzero Ab n i = Some pj \<and> pj < pk"
    and cons: "\<forall>i<rows Ab. (\<forall>j<n. ent Ab i j = 0) \<longrightarrow> ent Ab i n = 0"
    and pcr: "\<forall>i<rows Ab. pcr ! i = first_nonzero Ab n i"
  shows "k \<le> rows Ab \<Longrightarrow> length x = n \<Longrightarrow> (\<forall>i. k \<le> i \<and> i < rows Ab \<longrightarrow> row_holds Ab n \<rho> x i)
         \<Longrightarrow> \<forall>i<rows Ab. row_holds Ab n \<rho> (fold (solve_row Ab n pcr) (rev [0..<k]) x) i"
proof (induction k arbitrary: x)
  case 0
  then show ?case by simp
next
  case (Suc k)
  let ?x = "solve_row Ab n pcr k x"
  have k: "k < rows Ab" using Suc.prems(1) by simp
  have "row_holds Ab n \<rho> ?x i" if i: "k \<le> i" "i < rows Ab" for i
  proof (cases "i = k")
    case True
    show ?thesis unfolding True
      using Suc.prems(2) pcr cons k by (intro solve_row_solves) auto
  next
    case False
    with i have ki: "k < i" by simp
    have old: "row_holds Ab n \<rho> x i" using Suc.prems(3) ki i(2) by simp
    show ?thesis
    proof (rule solve_row_keeps [OF Suc.prems(2) old])
      fix pc assume "pcr ! k = Some pc"
      then have fk: "first_nonzero Ab n k = Some pc" using pcr k by simp
      then have pcn: "pc < n" by (simp add: first_nonzero_Some)
      have "ent Ab i pc = 0"
      proof (cases "first_nonzero Ab n i")
        case None
        then show ?thesis using pcn by (simp add: first_nonzero_None)
      next
        case (Some p)
        from ech [OF ki i(2) Some] fk have "pc < p" by auto
        then show ?thesis using Some by (simp add: first_nonzero_Some)
      qed
      with pcn show "pc < n \<and> ent Ab i pc = 0" by simp
    qed
  qed
  then have "\<forall>i<rows Ab. row_holds Ab n \<rho> (fold (solve_row Ab n pcr) (rev [0..<k]) ?x) i"
    using Suc.prems(1,2) by (intro Suc.IH) (auto simp: solve_row_length)
  then show ?case by simp
qed

text \<open>
  C1. For an augmented matrix in echelon form on which \<open>back_substitution\<close> returns
  (so it has \<open>n_vars + 1\<close> columns and no inconsistent row): under every valuation of the
  parameter symbols each entry of the returned solution has a value, and these values
  satisfy every row, \<open>\<Sum>j<n_vars. Ab[i, j] * v[j] = Ab[i, n_vars]\<close>.
\<close>

theorem solution_satisfies_every_row:
  assumes "echelon Ab" and "back_substitution Ab n_vars = Return (x, free_cols)"
  shows "\<forall>\<rho>. \<exists>v. map (eval \<rho>) x = map Some v \<and> length v = n_vars
           \<and> (\<forall>i<rows Ab. (\<Sum>j<n_vars. ent Ab i j * v ! j) = ent Ab i n_vars)"
proof
  fix \<rho>
  note r = back_substitution_Return [OF assms(2)]
  note f = free_cols_props [OF r(2)]
  have lead: "first_nonzero Ab n_vars i = leading Ab i" if "i < rows Ab" for i
    using r(1,4) that by (intro leading_first_nonzero) auto
  have len: "length x = n_vars"
    by (simp add: r(3) back_substitute_def back_fold_length bind_free_length)
  have piv: "\<And>i pc. i \<in> set (rev [0..<rows Ab]) \<Longrightarrow> fst (pivot_scan Ab n_vars) ! i = Some pc
               \<Longrightarrow> ent Ab i pc \<noteq> 0"
    by (simp add: pivot_scan_eq first_nonzero_Some)
  have "\<forall>j<n_vars. divisors_nonzero (bind_free n_vars free_cols ! j)"
    using bind_free_safe [OF f(1,2)] by blast
  then have safe: "\<forall>j<n_vars. divisors_nonzero (x ! j)"
    unfolding r(3) back_substitute_def
    by (rule back_fold_safe) (use piv in \<open>auto simp: bind_free_length\<close>)
  have ev: "map (eval \<rho>) x = map Some (map (val \<rho>) x)"
    using safe len by (intro nth_equalityI) (simp_all add: eval_val)
  have "\<forall>i<rows Ab. row_holds Ab n_vars \<rho> x i"
    unfolding r(3) back_substitute_def
  proof (rule back_fold_solves)
    fix i k pk assume "i < k" "k < rows Ab" "first_nonzero Ab n_vars k = Some pk"
    then show "\<exists>pj. first_nonzero Ab n_vars i = Some pj \<and> pj < pk"
      using echelonD [OF assms(1), of i k pk] lead by auto
  qed (use r(4) in \<open>auto simp: pivot_scan_eq bind_free_length\<close>)
  then have "\<forall>i<rows Ab. (\<Sum>j<n_vars. ent Ab i j * map (val \<rho>) x ! j) = ent Ab i n_vars"
    using len by (simp add: row_holds_def)
  with ev len
  show "\<exists>v. map (eval \<rho>) x = map Some v \<and> length v = n_vars
           \<and> (\<forall>i<rows Ab. (\<Sum>j<n_vars. ent Ab i j * v ! j) = ent Ab i n_vars)"
    by (intro exI [of _ "map (val \<rho>) x"]) simp
qed

theorem solution_satisfies_every_row_witness:
  "echelon (Matrix [[2, 1, 4], [0, 3, 9]])
   \<and> back_substitution (Matrix [[2, 1, 4], [0, 3, 9]]) 2
       = Return ([Div (Sub (Num 4) (Mul (Num 1) (Div (Num 9) (Num 3)))) (Num 2),
                  Div (Num 9) (Num 3)], [])
   \<and> (\<forall>\<rho>. \<exists>v. map (eval \<rho>)
                    [Div (Sub (Num 4) (Mul (Num 1) (Div (Num 9) (Num 3)))) (Num 2),
                     Div (Num 9) (Num 3)] = map Some v
              \<and> length v = 2
              \<and> (\<forall>i<rows (Matrix [[2, 1, 4], [0, 3, 9]]).
                    (\<Sum>j<2. ent (Matrix [[2, 1, 4], [0, 3, 9]]) i j * v ! j)
                      = ent (Matrix [[2, 1, 4], [0, 3, 9]]) i 2))"
proof -
  let ?M = "Matrix [[2, 1, 4], [0, 3, 9]]"
  have e: "echelon ?M" by code_simp
  have r: "back_substitution ?M 2
             = Return ([Div (Sub (Num 4) (Mul (Num 1) (Div (Num 9) (Num 3)))) (Num 2),
                        Div (Num 9) (Num 3)], [])"
    by code_simp
  from solution_satisfies_every_row [OF e r] e r show ?thesis by (intro conjI)
qed

section \<open>The reduction yields a row echelon form\<close>

lemma set_ent_simps [simp]:
  "rows (set_ent M i j v) = rows M"
  "cols (set_ent M i j v) = cols M"
  "ent (set_ent M i j v) r c = (if r = i \<and> c = j then v else ent M r c)"
  by (simp_all add: set_ent_def)

lemma row_swap_simps [simp]:
  "rows (row_swap M i j) = rows M"
  "cols (row_swap M i j) = cols M"
  by (simp_all add: row_swap_def)

lemma ent_row_swap:
  "ent (row_swap M i j) r c =
     (if c < cols M then (if r = i then ent M j c else if r = j then ent M i c else ent M r c)
      else ent M r c)"
  by (simp add: row_swap_def)

lemma row_op_upto:
  assumes "r \<noteq> p"
  shows "k \<le> cols M \<Longrightarrow>
    fold (\<lambda>j M'. set_ent M' r j (ent M' r j - factor * ent M' p j)) [0..<k] M
      = M\<lparr>ent := (\<lambda>i j. if i = r \<and> j < k then ent M r j - factor * ent M p j else ent M i j)\<rparr>"
proof (induction k)
  case 0
  then show ?case by simp
next
  case (Suc k)
  then show ?case using assms
    by (auto simp: set_ent_def fun_eq_iff less_Suc_eq intro!: matrix.equality)
qed

lemma row_op_subtract:
  assumes "r \<noteq> p"
  shows "row_op M r (\<lambda>M' val j. val - factor * ent M' p j)
      = M\<lparr>ent := (\<lambda>i j. if i = r \<and> j < cols M then ent M r j - factor * ent M p j
                          else ent M i j)\<rparr>"
  unfolding row_op_def using row_op_upto [OF assms, of "cols M" M factor] by simp

lemma eliminate_upto:
  "fold (\<lambda>r M.
             if ent M r col = 0 then M
             else (let factor = ent M r col / pv
                   in row_op M r (\<lambda>M' val j. val - factor * ent M' p j)))
          [p + 1..<k] M
   = M\<lparr>ent := (\<lambda>i j. if p < i \<and> i < k \<and> j < cols M
                        then ent M i j - (ent M i col / pv) * ent M p j else ent M i j)\<rparr>"
proof (induction k)
  case 0
  then show ?case by simp
next
  case (Suc k)
  show ?case
  proof (cases "p + 1 \<le> k")
    case True
    then have "[p + 1..<Suc k] = [p + 1..<k] @ [k]" by simp
    then show ?thesis using True Suc
      by (auto simp: row_op_subtract Let_def fun_eq_iff less_Suc_eq intro!: matrix.equality)
  next
    case False
    then show ?thesis by (auto simp: fun_eq_iff intro!: matrix.equality)
  qed
qed

lemma eliminate_eq:
  "eliminate m M p col pv
   = M\<lparr>ent := (\<lambda>i j. if p < i \<and> i < m \<and> j < cols M
                        then ent M i j - (ent M i col / pv) * ent M p j else ent M i j)\<rparr>"
  unfolding eliminate_def by (rule eliminate_upto)

lemma find_pivot_Some:
  "find_pivot m M c pr = Some p \<longleftrightarrow>
     pr \<le> p \<and> p < m \<and> ent M p c \<noteq> 0 \<and> (\<forall>r. pr \<le> r \<and> r < p \<longrightarrow> ent M r c = 0)"
proof
  assume "find_pivot m M c pr = Some p"
  then obtain i where i: "i < m - pr" "ent M (pr + i) c \<noteq> 0" "p = pr + i"
      "\<forall>j<i. ent M (pr + j) c = 0"
    by (auto simp: find_pivot_def find_Some_iff)
  have "ent M r c = 0" if "pr \<le> r" "r < p" for r
    using i(4) [rule_format, of "r - pr"] that i(3) by simp
  then show "pr \<le> p \<and> p < m \<and> ent M p c \<noteq> 0 \<and> (\<forall>r. pr \<le> r \<and> r < p \<longrightarrow> ent M r c = 0)"
    using i by auto
next
  assume a: "pr \<le> p \<and> p < m \<and> ent M p c \<noteq> 0 \<and> (\<forall>r. pr \<le> r \<and> r < p \<longrightarrow> ent M r c = 0)"
  then have "p - pr < length [pr..<m] \<and> ent M ([pr..<m] ! (p - pr)) c \<noteq> 0
      \<and> p = [pr..<m] ! (p - pr) \<and> (\<forall>j<p - pr. \<not> ent M ([pr..<m] ! j) c \<noteq> 0)"
    by auto
  then show "find_pivot m M c pr = Some p"
    unfolding find_pivot_def find_Some_iff by blast
qed

lemma find_pivot_None:
  "find_pivot m M c pr = None \<longleftrightarrow> (\<forall>r. pr \<le> r \<and> r < m \<longrightarrow> ent M r c = 0)"
  by (auto simp: find_pivot_def find_None_iff)

lemma ref_inv_skip:
  assumes "ref_inv m n M pr pcs c" "find_pivot m M c pr = None"
  shows "ref_inv m n M pr pcs (Suc c)"
  using assms unfolding ref_inv_def find_pivot_None
  by (auto simp: less_Suc_eq)

lemma ref_inv_pivot:
  assumes inv: "ref_inv m n M pr pcs c" and c: "c < n" and pr: "pr < m"
    and fp: "find_pivot m M c pr = Some pivot"
    and M1: "M1 = (if pivot \<noteq> pr then row_swap M pivot pr else M)"
  shows "ref_inv m n (eliminate m M1 pr c (ent M1 pr c)) (pr + 1) (pcs @ [c]) (Suc c)"
proof -
  let ?M2 = "eliminate m M1 pr c (ent M1 pr c)"
  from fp have p: "pr \<le> pivot" "pivot < m" "ent M pivot c \<noteq> 0"
    by (simp_all add: find_pivot_Some)
  from inv have dims: "rows M = m" "cols M = n" and len: "length pcs = pr" and prc: "pr \<le> c"
    and srt: "sorted_wrt (<) pcs" and bnd: "\<forall>p\<in>set pcs. p < c"
    and old: "\<And>k. k < pr \<Longrightarrow> ent M k (pcs ! k) \<noteq> 0 \<and> (\<forall>j<pcs ! k. ent M k j = 0)"
    and zero: "\<And>r j. pr \<le> r \<Longrightarrow> r < m \<Longrightarrow> j < c \<Longrightarrow> ent M r j = 0"
    by (auto simp: ref_inv_def)
  have dims1: "rows M1 = m" "cols M1 = n" using dims M1 by auto
  have pv: "ent M1 pr c \<noteq> 0" using p c dims M1 by (auto simp: ent_row_swap)
  have low1: "ent M1 k j = ent M k j" if "k < pr" for k j
    using that p M1 by (auto simp: ent_row_swap)
  have zero1: "ent M1 r j = 0" if "pr \<le> r" "r < m" "j < c" for r j
    using that p pr M1 zero by (auto simp: ent_row_swap)
  have e2: "ent ?M2 i j = (if pr < i \<and> i < m \<and> j < n
               then ent M1 i j - (ent M1 i c / ent M1 pr c) * ent M1 pr j else ent M1 i j)" for i j
    by (simp add: eliminate_eq dims1)
  have dims2: "rows ?M2 = m" "cols ?M2 = n" by (simp_all add: eliminate_eq dims1)
  have srt': "sorted_wrt (<) (pcs @ [c])" using srt bnd by (simp add: sorted_wrt_append)
  have bnd': "\<forall>p\<in>set (pcs @ [c]). p < Suc c" using bnd by auto
  have piv': "ent ?M2 k ((pcs @ [c]) ! k) \<noteq> 0 \<and> (\<forall>j<(pcs @ [c]) ! k. ent ?M2 k j = 0)"
    if "k < pr + 1" for k
  proof (cases "k < pr")
    case True
    then show ?thesis using old [OF True] len by (simp add: e2 low1 nth_append)
  next
    case False
    with that have "k = pr" by simp
    then show ?thesis using pv len pr zero1 [of pr] by (simp add: e2 nth_append)
  qed
  have zero': "ent ?M2 r j = 0" if "pr + 1 \<le> r" "r < m" "j < Suc c" for r j
  proof (cases "j < c")
    case True
    then show ?thesis using that zero1 [of r j] zero1 [of pr j] pr by (simp add: e2)
  next
    case False
    with that have "j = c" by simp
    then show ?thesis using that pv c by (simp add: e2)
  qed
  show ?thesis
    unfolding ref_inv_def
    using dims2 pr prc len srt' bnd' piv' zero' by (intro conjI) auto
qed

lemma ref_inv_post_end:
  assumes "ref_inv m n M pr pcs n"
  shows "ref_post m n M pcs"
  using assms unfolding ref_inv_def ref_post_def by auto

lemma ref_inv_post_break:
  assumes "ref_inv m n M pr pcs c" "m \<le> pr" "c \<le> n"
  shows "ref_post m n M pcs"
  using assms unfolding ref_inv_def ref_post_def by (intro conjI) auto

lemma ref_loop_post:
  "ref_inv m n M pr pcs c \<Longrightarrow> c \<le> n \<Longrightarrow> [c..<n] = cs \<Longrightarrow>
   ref_post m n (fst (ref_loop m cs M pr pcs)) (snd (ref_loop m cs M pr pcs))"
proof (induction cs arbitrary: c M pr pcs)
  case Nil
  then have "c = n" by auto
  with Nil show ?case by (simp add: ref_inv_post_end)
next
  case (Cons col cs)
  from Cons.prems(3) have c: "c < n" "col = c" "[Suc c..<n] = cs"
    by (auto simp: upt_eq_Cons_conv)
  show ?case
  proof (cases "m \<le> pr")
    case True
    then show ?thesis using Cons.prems(1,2) by (simp add: ref_inv_post_break)
  next
    case False
    show ?thesis
    proof (cases "find_pivot m M c pr")
      case None
      have "ref_inv m n M pr pcs (Suc c)" using Cons.prems(1) None by (rule ref_inv_skip)
      from Cons.IH [OF this _ c(3)] c(1) show ?thesis using None False c(2) by simp
    next
      case (Some pivot)
      define M1 where "M1 = (if pivot \<noteq> pr then row_swap M pivot pr else M)"
      have "ref_inv m n (eliminate m M1 pr c (ent M1 pr c)) (pr + 1) (pcs @ [c]) (Suc c)"
        using Cons.prems(1) c(1) _ Some M1_def by (rule ref_inv_pivot) (use False in simp)
      from Cons.IH [OF this _ c(3)] c(1) show ?thesis
        using Some False c(2) by (simp add: M1_def Let_def)
    qed
  qed
qed

lemma ref_inv_init: "ref_inv (rows A) (cols A) A 0 [] 0"
  by (simp add: ref_inv_def)

lemma ref_post: "ref_post (rows A) (cols A) (fst (ref A)) (snd (ref A))"
  unfolding ref_def copy_def Let_def
  by (rule ref_loop_post [OF ref_inv_init]) simp_all

lemma echelonI:
  assumes "\<And>i k pk. i < k \<Longrightarrow> k < rows M \<Longrightarrow> leading M k = Some pk
             \<Longrightarrow> \<exists>pj. leading M i = Some pj \<and> pj < pk"
  shows "echelon M"
  unfolding echelon_def
proof (intro ballI)
  fix k i assume "k \<in> {0..<rows M}" "i \<in> {0..<k}"
  then have ik: "i < k" "k < rows M" by simp_all
  show "case leading M k of None \<Rightarrow> True
        | Some pk \<Rightarrow> (case leading M i of None \<Rightarrow> False | Some pj \<Rightarrow> pj < pk)"
  proof (cases "leading M k")
    case None
    then show ?thesis by simp
  next
    case (Some pk)
    from assms [OF ik Some] Some show ?thesis by auto
  qed
qed

lemma ref_post_leading:
  assumes "ref_post m n R pcs"
  shows "k < length pcs \<Longrightarrow> leading R k = Some (pcs ! k)"
    and "length pcs \<le> r \<Longrightarrow> r < m \<Longrightarrow> leading R r = None"
  using assms unfolding ref_post_def leading_Some leading_None by auto

lemma ref_post_echelon:
  assumes "ref_post m n R pcs"
  shows "echelon R"
proof (rule echelonI)
  fix i k pk assume ik: "i < k" "k < rows R" "leading R k = Some pk"
  have m: "rows R = m" and srt: "sorted_wrt (<) pcs" using assms by (auto simp: ref_post_def)
  have k: "k < length pcs"
  proof (rule ccontr)
    assume "\<not> k < length pcs"
    then have "leading R k = None" using ref_post_leading(2) [OF assms, of k] ik(2) m by simp
    with ik(3) show False by simp
  qed
  then have "pk = pcs ! k" using ref_post_leading(1) [OF assms k] ik(3) by simp
  moreover have "leading R i = Some (pcs ! i)"
    using ref_post_leading(1) [OF assms, of i] ik(1) k by simp
  moreover have "pcs ! i < pcs ! k" using srt ik(1) k by (simp add: sorted_wrt_nth_less)
  ultimately show "\<exists>pj. leading R i = Some pj \<and> pj < pk" by simp
qed

lemma ref_post_below:
  assumes "ref_post m n R pcs" "k < length pcs" "k < r" "r < m"
  shows "ent R r (pcs ! k) = 0"
proof (cases "r < length pcs")
  case True
  have "pcs ! k < pcs ! r" using assms True by (simp add: ref_post_def sorted_wrt_nth_less)
  then show ?thesis using assms(1) True by (simp add: ref_post_def)
next
  case False
  have "pcs ! k < n" using assms(1,2) by (simp add: ref_post_def)
  then show ?thesis using assms(1,4) False by (simp add: ref_post_def)
qed

text \<open>
  C3. For every matrix \<open>A\<close>, \<open>ref A\<close> returns a matrix of the same shape in row echelon
  form together with its pivot columns: the pivot columns are strictly increasing, there
  are at most \<open>min m n\<close> of them, the \<open>k\<close>-th pivot column is the column of the leading
  entry of row \<open>k\<close>, every entry below a pivot in its column is exactly zero, and the rows
  after the last pivot row are zero.
\<close>

theorem ref_gives_echelon_form:
  "rows (fst (ref A)) = rows A \<and> cols (fst (ref A)) = cols A
   \<and> echelon (fst (ref A))
   \<and> sorted_wrt (<) (snd (ref A))
   \<and> length (snd (ref A)) \<le> min (rows A) (cols A)
   \<and> (\<forall>k<length (snd (ref A)).
         leading (fst (ref A)) k = Some (snd (ref A) ! k)
         \<and> (\<forall>r. k < r \<and> r < rows A \<longrightarrow> ent (fst (ref A)) r (snd (ref A) ! k) = 0))
   \<and> (\<forall>r. length (snd (ref A)) \<le> r \<and> r < rows A \<longrightarrow> leading (fst (ref A)) r = None)"
proof -
  note p = ref_post [of A]
  have "rows (fst (ref A)) = rows A" "cols (fst (ref A)) = cols A"
    "sorted_wrt (<) (snd (ref A))" "length (snd (ref A)) \<le> min (rows A) (cols A)"
    using p by (simp_all add: ref_post_def)
  moreover have "echelon (fst (ref A))" using p by (rule ref_post_echelon)
  moreover have "\<forall>k<length (snd (ref A)).
         leading (fst (ref A)) k = Some (snd (ref A) ! k)
         \<and> (\<forall>r. k < r \<and> r < rows A \<longrightarrow> ent (fst (ref A)) r (snd (ref A) ! k) = 0)"
    using ref_post_leading(1) [OF p] ref_post_below [OF p] by blast
  moreover have "\<forall>r. length (snd (ref A)) \<le> r \<and> r < rows A \<longrightarrow> leading (fst (ref A)) r = None"
    using ref_post_leading(2) [OF p] by blast
  ultimately show ?thesis by (intro conjI)
qed

theorem ref_gives_echelon_form_witness:
  "tolist (fst (ref (Matrix [[0, 2], [1, 3], [2, 8]]))) = [[1, 3], [0, 2], [0, 0]]
   \<and> snd (ref (Matrix [[0, 2], [1, 3], [2, 8]])) = [0, 1]
   \<and> echelon (fst (ref (Matrix [[0, 2], [1, 3], [2, 8]])))
   \<and> length (snd (ref (Matrix [[0, 2], [1, 3], [2, 8]]))) \<le> min 3 2
   \<and> ent (fst (ref (Matrix [[0, 2], [1, 3], [2, 8]]))) 1 0 = 0
   \<and> ent (fst (ref (Matrix [[0, 2], [1, 3], [2, 8]]))) 2 0 = 0
   \<and> ent (fst (ref (Matrix [[0, 2], [1, 3], [2, 8]]))) 2 1 = 0"
proof -
  let ?A = "Matrix [[0, 2], [1, 3], [2, 8]]"
  note t = ref_gives_echelon_form [of ?A]
  have l: "tolist (fst (ref ?A)) = [[1, 3], [0, 2], [0, 0]]" by code_simp
  have s: "snd (ref ?A) = [0, 1]" by code_simp
  have d: "rows ?A = 3" "cols ?A = 2" by (simp_all add: Matrix_def)
  have e: "echelon (fst (ref ?A))" using t by (elim conjE)
  have n: "length (snd (ref ?A)) \<le> min 3 2" using t d by simp
  have b: "\<forall>k<length (snd (ref ?A)). \<forall>r. k < r \<and> r < rows ?A
             \<longrightarrow> ent (fst (ref ?A)) r (snd (ref ?A) ! k) = 0"
    using t by blast
  have "ent (fst (ref ?A)) 1 0 = 0" using b [rule_format, of 0 1] s d by simp
  moreover have "ent (fst (ref ?A)) 2 0 = 0" using b [rule_format, of 0 2] s d by simp
  moreover have "ent (fst (ref ?A)) 2 1 = 0" using b [rule_format, of 1 2] s d by simp
  ultimately show ?thesis using l s e n by (intro conjI)
qed

section \<open>The reduction leaves an echelon matrix as it is\<close>

lemma map_filter_all_None:
  "(\<And>r. r \<in> set rs \<Longrightarrow> f r = None) \<Longrightarrow> List.map_filter f rs = []"
  by (induction rs) (auto simp: map_filter_simps)

lemma eliminate_nothing:
  assumes "\<And>r. p < r \<Longrightarrow> r < m \<Longrightarrow> ent M r col = 0"
  shows "eliminate m M p col pv = M"
proof -
  have "(\<lambda>i j. if p < i \<and> i < m \<and> j < cols M
                 then ent M i j - (ent M i col / pv) * ent M p j else ent M i j) = ent M"
    using assms by (auto simp: fun_eq_iff)
  then show ?thesis by (simp add: eliminate_eq)
qed

lemma ref_loop_echelon:
  assumes ech: "echelon A" and m: "rows A = m" and n: "cols A = n"
  shows "pr \<le> m \<Longrightarrow> c \<le> n \<Longrightarrow> [c..<n] = cs
         \<Longrightarrow> (\<And>r j. pr \<le> r \<Longrightarrow> r < m \<Longrightarrow> j < c \<Longrightarrow> ent A r j = 0)
         \<Longrightarrow> ref_loop m cs A pr pcs = (A, pcs @ List.map_filter (leading A) [pr..<m])"
proof (induction cs arbitrary: c pr pcs)
  case Nil
  then have "c = n" by auto
  then have "leading A r = None" if "r \<in> set [pr..<m]" for r
    using Nil.prems(4) [of r] that n by (simp add: leading_None)
  then have "List.map_filter (leading A) [pr..<m] = []" by (rule map_filter_all_None)
  then show ?case by simp
next
  case (Cons col cs)
  from Cons.prems(3) have c: "c < n" "col = c" "[Suc c..<n] = cs"
    by (auto simp: upt_eq_Cons_conv)
  show ?case
  proof (cases "m \<le> pr")
    case True
    then show ?thesis using Cons.prems(1) by (simp add: map_filter_simps)
  next
    case False
    then have pr: "pr < m" by simp
    show ?thesis
    proof (cases "find_pivot m A c pr")
      case None
      then have z: "\<And>r. pr \<le> r \<Longrightarrow> r < m \<Longrightarrow> ent A r c = 0"
        by (simp add: find_pivot_None)
      have "ref_loop m cs A pr pcs = (A, pcs @ List.map_filter (leading A) [pr..<m])"
      proof (rule Cons.IH [OF Cons.prems(1) _ c(3)])
        show "Suc c \<le> n" using c(1) by simp
      next
        fix r j assume "pr \<le> r" "r < m" "j < Suc c"
        then show "ent A r j = 0" using z [of r] Cons.prems(4) [of r j] by (cases "j = c") auto
      qed
      then show ?thesis using None False c(2) by simp
    next
      case (Some p)
      then have p: "pr \<le> p" "p < m" "ent A p c \<noteq> 0"
        by (simp_all add: find_pivot_Some)
      have lp: "leading A p = Some c"
        using p c(1) n Cons.prems(4) [of p] by (simp add: leading_Some)
      have "p = pr"
      proof (rule ccontr)
        assume "p \<noteq> pr"
        with p(1) have "pr < p" by simp
        from echelonD [OF ech this _ lp] p(2) m obtain q where q: "leading A pr = Some q" "q < c"
          by auto
        then have "ent A pr q \<noteq> 0" by (simp add: leading_Some)
        moreover have "ent A pr q = 0" using Cons.prems(4) [of pr q] pr q(2) by simp
        ultimately show False by simp
      qed
      with lp have lpr: "leading A pr = Some c" by simp
      have below: "ent A r j = 0" if "pr < r" "r < m" "j < Suc c" for r j
      proof (cases "leading A r")
        case None
        then show ?thesis using that c(1) n by (simp add: leading_None)
      next
        case (Some q)
        from echelonD [OF ech that(1) _ Some] that(2) m lpr have "c < q" by auto
        then show ?thesis using Some that(3) by (simp add: leading_Some)
      qed
      have el: "eliminate m A pr c (ent A pr c) = A"
        using below by (intro eliminate_nothing) simp
      have "ref_loop m cs A (pr + 1) (pcs @ [c])
              = (A, (pcs @ [c]) @ List.map_filter (leading A) [pr + 1..<m])"
      proof (rule Cons.IH [OF _ _ c(3)])
        show "pr + 1 \<le> m" using pr by simp
        show "Suc c \<le> n" using c(1) by simp
      next
        fix r j assume "pr + 1 \<le> r" "r < m" "j < Suc c"
        then show "ent A r j = 0" using below [of r j] by simp
      qed
      moreover have "List.map_filter (leading A) [pr..<m]
                       = c # List.map_filter (leading A) [pr + 1..<m]"
        using pr lpr by (simp add: upt_conv_Cons map_filter_simps)
      ultimately show ?thesis using Some False c(2) \<open>p = pr\<close> el by simp
    qed
  qed
qed

text \<open>
  C6. On a matrix \<open>A\<close> that is already in row echelon form, \<open>ref\<close> returns \<open>A\<close> itself,
  entry for entry (no row is swapped and no elimination changes a row), and its pivot
  columns are the columns of the leading entries of the nonzero rows of \<open>A\<close>.
\<close>

theorem ref_fixes_echelon_matrices:
  assumes "echelon A"
  shows "ref A = (A, leading_columns A)"
  unfolding ref_def copy_def Let_def leading_columns_def
  using ref_loop_echelon [OF assms refl refl, of 0 0 "[0..<cols A]" "[]"] by simp

theorem ref_fixes_echelon_matrices_witness:
  "echelon (Matrix [[1, 2, 3], [0, 0, 4], [0, 0, 0]])
   \<and> leading_columns (Matrix [[1, 2, 3], [0, 0, 4], [0, 0, 0]]) = [0, 2]
   \<and> ref (Matrix [[1, 2, 3], [0, 0, 4], [0, 0, 0]])
       = (Matrix [[1, 2, 3], [0, 0, 4], [0, 0, 0]], [0, 2])"
proof -
  let ?A = "Matrix [[1, 2, 3], [0, 0, 4], [0, 0, 0]]"
  have e: "echelon ?A"
    by (simp add: echelon_def leading_def Matrix_def atLeastLessThanSuc eval_nat_numeral)
  have l: "leading_columns ?A = [0, 2]" by code_simp
  from ref_fixes_echelon_matrices [OF e] e l show ?thesis by simp
qed

section \<open>The reduction preserves the row space\<close>

lemma in_row_space_cong:
  assumes "in_row_space M f" "\<And>j. j < cols M \<Longrightarrow> g j = f j"
  shows "in_row_space M g"
  using assms unfolding in_row_space_def by auto

lemma in_row_space_row:
  assumes "i < rows M"
  shows "in_row_space M (ent M i)"
proof -
  have "(\<Sum>k<rows M. (if k = i then 1 else 0) * ent M k j) = ent M i j" for j
  proof -
    have "(\<Sum>k<rows M. (if k = i then 1 else 0) * ent M k j)
            = (\<Sum>k<rows M. if k = i then ent M k j else 0)"
      by (intro sum.cong) auto
    also have "\<dots> = ent M i j" using assms by simp
    finally show ?thesis .
  qed
  then show ?thesis unfolding in_row_space_def
    by (intro exI [of _ "\<lambda>k. if k = i then 1 else 0"]) simp
qed

lemma in_row_space_combine:
  assumes "in_row_space M f" "in_row_space M g"
  shows "in_row_space M (\<lambda>j. f j - a * g j)"
proof -
  from assms obtain c d where
    c: "\<forall>j<cols M. f j = (\<Sum>i<rows M. c i * ent M i j)" and
    d: "\<forall>j<cols M. g j = (\<Sum>i<rows M. d i * ent M i j)"
    unfolding in_row_space_def by blast
  have "f j - a * g j = (\<Sum>i<rows M. (c i - a * d i) * ent M i j)" if "j < cols M" for j
    using c d that by (simp add: sum_subtractf sum_distrib_left algebra_simps)
  then show ?thesis unfolding in_row_space_def
    by (intro exI [of _ "\<lambda>i. c i - a * d i"]) simp
qed

lemma in_row_space_trans:
  assumes cols: "cols M' = cols M"
    and rows: "\<And>i. i < rows M' \<Longrightarrow> in_row_space M (ent M' i)"
    and f: "in_row_space M' f"
  shows "in_row_space M f"
proof -
  from f obtain c where c: "\<forall>j<cols M. f j = (\<Sum>i<rows M'. c i * ent M' i j)"
    unfolding in_row_space_def cols by blast
  have "\<forall>i. \<exists>d. i < rows M' \<longrightarrow> (\<forall>j<cols M. ent M' i j = (\<Sum>k<rows M. d k * ent M k j))"
    using rows unfolding in_row_space_def by blast
  then obtain d where
    d: "\<And>i j. i < rows M' \<Longrightarrow> j < cols M \<Longrightarrow> ent M' i j = (\<Sum>k<rows M. d i k * ent M k j)"
    by metis
  have "f j = (\<Sum>k<rows M. (\<Sum>i<rows M'. c i * d i k) * ent M k j)" if j: "j < cols M" for j
  proof -
    have "f j = (\<Sum>i<rows M'. c i * (\<Sum>k<rows M. d i k * ent M k j))"
      using c j d by simp
    also have "\<dots> = (\<Sum>i<rows M'. \<Sum>k<rows M. c i * d i k * ent M k j)"
      by (simp add: sum_distrib_left mult.assoc)
    also have "\<dots> = (\<Sum>k<rows M. \<Sum>i<rows M'. c i * d i k * ent M k j)"
      by (rule sum.swap)
    also have "\<dots> = (\<Sum>k<rows M. (\<Sum>i<rows M'. c i * d i k) * ent M k j)"
      by (simp add: sum_distrib_right)
    finally show ?thesis .
  qed
  then show ?thesis unfolding in_row_space_def
    by (intro exI [of _ "\<lambda>k. \<Sum>i<rows M'. c i * d i k"]) simp
qed

text \<open>Two matrices of the same shape whose rows lie in each other's row space.\<close>

lemma in_row_space_eq:
  assumes "rows M' = rows M" "cols M' = cols M"
    and "\<And>i. i < rows M \<Longrightarrow> in_row_space M (ent M' i)"
    and "\<And>i. i < rows M \<Longrightarrow> in_row_space M' (ent M i)"
  shows "in_row_space M' f = in_row_space M f"
proof
  assume "in_row_space M' f"
  then show "in_row_space M f"
    by (rule in_row_space_trans [of M' M, rotated 2]) (use assms(1,2,3) in auto)
next
  assume "in_row_space M f"
  then show "in_row_space M' f"
    by (rule in_row_space_trans [of M M', rotated 2]) (use assms(1,2,4) in auto)
qed

lemma row_swap_row_space:
  assumes "p < rows M" "q < rows M"
  shows "in_row_space (row_swap M p q) f = in_row_space M f"
proof (rule in_row_space_eq)
  fix i assume i: "i < rows M"
  let ?s = "\<lambda>i. if i = p then q else if i = q then p else i"
  have s: "?s i < rows M" using i assms by simp
  show "in_row_space M (ent (row_swap M p q) i)"
    by (rule in_row_space_cong [OF in_row_space_row [OF s]]) (simp add: ent_row_swap)
  have s': "?s i < rows (row_swap M p q)" using s by simp
  show "in_row_space (row_swap M p q) (ent M i)"
    by (rule in_row_space_cong [OF in_row_space_row [OF s']]) (auto simp: ent_row_swap)
qed simp_all

lemma eliminate_row_space:
  assumes "p < m" "rows M = m"
  shows "in_row_space (eliminate m M p col pv) f = in_row_space M f"
proof (rule in_row_space_eq)
  let ?E = "eliminate m M p col pv"
  let ?a = "\<lambda>i. if p < i then ent M i col / pv else 0"
  have e: "ent ?E i j = ent M i j - ?a i * ent M p j" if "i < m" "j < cols M" for i j
    using that by (simp add: eliminate_eq)
  have ep: "ent ?E p j = ent M p j" for j by (simp add: eliminate_eq)
  have dims: "rows ?E = m" "cols ?E = cols M" using assms by (simp_all add: eliminate_eq)
  fix i assume i: "i < rows M"
  then have im: "i < m" using assms by simp
  have "in_row_space M (\<lambda>j. ent M i j - ?a i * ent M p j)"
    using i assms by (intro in_row_space_combine in_row_space_row) simp_all
  then show "in_row_space M (ent ?E i)"
    by (rule in_row_space_cong) (use e im in simp)
  have "in_row_space ?E (\<lambda>j. ent ?E i j - (- ?a i) * ent ?E p j)"
    using im assms dims by (intro in_row_space_combine in_row_space_row) simp_all
  then show "in_row_space ?E (ent M i)"
    by (rule in_row_space_cong) (use e im ep dims in simp)
qed (use assms in \<open>simp_all add: eliminate_eq\<close>)

lemma ref_loop_row_space:
  "rows M = m \<Longrightarrow>
   rows (fst (ref_loop m cs M pr pcs)) = m
   \<and> cols (fst (ref_loop m cs M pr pcs)) = cols M
   \<and> (\<forall>f. in_row_space (fst (ref_loop m cs M pr pcs)) f = in_row_space M f)"
proof (induction cs arbitrary: M pr pcs)
  case Nil
  then show ?case by simp
next
  case (Cons col cs)
  show ?case
  proof (cases "m \<le> pr")
    case True
    then show ?thesis using Cons.prems by simp
  next
    case False
    show ?thesis
    proof (cases "find_pivot m M col pr")
      case None
      then show ?thesis using False Cons.IH [OF Cons.prems] by simp
    next
      case (Some p)
      then have p: "pr \<le> p" "p < m" by (simp_all add: find_pivot_Some)
      define M1 where "M1 = (if p \<noteq> pr then row_swap M p pr else M)"
      define M2 where "M2 = eliminate m M1 pr col (ent M1 pr col)"
      have d1: "rows M1 = m" "cols M1 = cols M" using Cons.prems by (simp_all add: M1_def)
      have r1: "in_row_space M1 f = in_row_space M f" for f
        using p False Cons.prems by (simp add: M1_def row_swap_row_space)
      have d2: "rows M2 = m" "cols M2 = cols M" using d1 by (simp_all add: M2_def eliminate_eq)
      have r2: "in_row_space M2 f = in_row_space M1 f" for f
        unfolding M2_def using False d1(1) by (intro eliminate_row_space) simp_all
      have "ref_loop m (col # cs) M pr pcs = ref_loop m cs M2 (pr + 1) (pcs @ [col])"
        using Some False by (simp add: M1_def M2_def Let_def)
      then show ?thesis using Cons.IH [OF d2(1), of "pr + 1" "pcs @ [col]"] d2 r1 r2 by simp
    qed
  qed
qed

lemma ref_row_space:
  "rows (fst (ref A)) = rows A" "cols (fst (ref A)) = cols A"
  "in_row_space (fst (ref A)) f = in_row_space A f"
  using ref_loop_row_space [of A "rows A" "[0..<cols A]" 0 "[]"]
  by (simp_all add: ref_def copy_def Let_def)

lemma annihilates_row_space:
  "(\<forall>i<rows M. (\<Sum>j<cols M. ent M i j * w j) = 0)
     = (\<forall>f. in_row_space M f \<longrightarrow> (\<Sum>j<cols M. f j * w j) = 0)"
proof
  assume a: "\<forall>i<rows M. (\<Sum>j<cols M. ent M i j * w j) = 0"
  show "\<forall>f. in_row_space M f \<longrightarrow> (\<Sum>j<cols M. f j * w j) = 0"
  proof (intro allI impI)
    fix f assume "in_row_space M f"
    then obtain c where c: "\<forall>j<cols M. f j = (\<Sum>i<rows M. c i * ent M i j)"
      unfolding in_row_space_def by blast
    have "(\<Sum>j<cols M. f j * w j) = (\<Sum>j<cols M. (\<Sum>i<rows M. c i * ent M i j) * w j)"
      using c by (intro sum.cong) auto
    also have "\<dots> = (\<Sum>j<cols M. \<Sum>i<rows M. c i * (ent M i j * w j))"
      by (simp add: sum_distrib_right mult.assoc)
    also have "\<dots> = (\<Sum>i<rows M. \<Sum>j<cols M. c i * (ent M i j * w j))"
      by (rule sum.swap)
    also have "\<dots> = (\<Sum>i<rows M. c i * (\<Sum>j<cols M. ent M i j * w j))"
      by (simp add: sum_distrib_left)
    also have "\<dots> = 0" using a by simp
    finally show "(\<Sum>j<cols M. f j * w j) = 0" .
  qed
next
  assume "\<forall>f. in_row_space M f \<longrightarrow> (\<Sum>j<cols M. f j * w j) = 0"
  then show "\<forall>i<rows M. (\<Sum>j<cols M. ent M i j * w j) = 0"
    using in_row_space_row by blast
qed

lemma ref_annihilates:
  "(\<forall>i<rows A. (\<Sum>j<cols A. ent (fst (ref A)) i j * w j) = 0)
     = (\<forall>i<rows A. (\<Sum>j<cols A. ent A i j * w j) = 0)"
  using annihilates_row_space [of "fst (ref A)" w] annihilates_row_space [of A w]
  by (simp add: ref_row_space)

lemma solves_homogeneous:
  "solves M (replicate (rows M) 0) x
     = (length x = cols M \<and> (\<forall>i<rows M. (\<Sum>j<cols M. ent M i j * x ! j) = 0))"
  by (auto simp: solves_def)

lemma solves_augmented:
  assumes "cols M = Suc n"
  shows "solves (coefficients M) (rhs_column M) x
     = (length x = n \<and> (\<forall>i<rows M. (\<Sum>j<cols M. ent M i j * (if j < n then x ! j else - 1)) = 0))"
proof -
  have "solves (coefficients M) (rhs_column M) x
     = (length x = n \<and> (\<forall>i<rows M. (\<Sum>j<n. ent M i j * x ! j) = ent M i n))"
    using assms by (auto simp: solves_def coefficients_def cols_upto_def rhs_column_def)
  also have "\<dots> = (length x = n
       \<and> (\<forall>i<rows M. (\<Sum>j<cols M. ent M i j * (if j < n then x ! j else - 1)) = 0))"
    using assms by simp
  finally show ?thesis .
qed

text \<open>
  C5, as stated: \<open>ref A\<close> preserves the solution set of any linear system whose coefficient
  matrix is \<open>A\<close>. It does not when the right-hand side stays as it was: \<open>x = 1\<close> solves
  \<open>0 * x = 0, 1 * x = 1\<close>, and \<open>ref\<close> swaps the two rows of the coefficient matrix, after
  which \<open>x = 1\<close> no longer solves the system with the same right-hand side.
\<close>

theorem right_hand_side_not_reduced:
  "solves (Matrix [[0], [1]]) [0, 1] [1]
   \<and> \<not> solves (fst (ref (Matrix [[0], [1]]))) [0, 1] [1]"
proof -
  have "tolist (fst (ref (Matrix [[0], [1]]))) = [[1], [0]]" by code_simp
  then have e: "ent (fst (ref (Matrix [[0], [1]]))) 0 0 = 1"
    by (simp add: tolist_def ref_row_space Matrix_def)
  have "solves (Matrix [[0], [1]]) [0, 1] [1]"
    by (simp add: solves_def Matrix_def atLeastLessThanSuc eval_nat_numeral)
  moreover have "\<not> solves (fst (ref (Matrix [[0], [1]]))) [0, 1] [1]"
    using e by (simp add: solves_def ref_row_space Matrix_def atLeastLessThanSuc eval_nat_numeral)
  ultimately show ?thesis by simp
qed

text \<open>
  C5, amended. For every matrix \<open>A\<close>, \<open>ref A\<close> preserves the row space, hence the rank,
  the solution set of the homogeneous system \<open>A x = 0\<close>, and the solution set of the
  system whose augmented matrix is \<open>A\<close> (coefficients and right-hand side reduced
  together).
\<close>

theorem ref_preserves_row_space:
  "row_space (fst (ref A)) = row_space A
   \<and> rank (fst (ref A)) = rank A
   \<and> (\<forall>x. solves (fst (ref A)) (replicate (rows A) 0) x = solves A (replicate (rows A) 0) x)
   \<and> (0 < cols A \<longrightarrow>
        (\<forall>x. solves (coefficients (fst (ref A))) (rhs_column (fst (ref A))) x
              = solves (coefficients A) (rhs_column A) x))"
proof -
  have rs: "row_space (fst (ref A)) = row_space A"
    by (simp add: row_space_def ref_row_space)
  then have rk: "rank (fst (ref A)) = rank A"
    by (simp add: rank_def ref_row_space)
  have hom: "solves (fst (ref A)) (replicate (rows A) 0) x = solves A (replicate (rows A) 0) x" for x
    using solves_homogeneous [of "fst (ref A)" x] solves_homogeneous [of A x]
      ref_annihilates [of A "(!) x"]
    by (simp add: ref_row_space)
  have aug: "solves (coefficients (fst (ref A))) (rhs_column (fst (ref A))) x
              = solves (coefficients A) (rhs_column A) x" if "0 < cols A" for x
  proof -
    from that obtain n where n: "cols A = Suc n" by (cases "cols A") auto
    then have n': "cols (fst (ref A)) = Suc n" by (simp add: ref_row_space)
    show ?thesis
      unfolding solves_augmented [OF n] solves_augmented [OF n']
      using ref_annihilates [of A "\<lambda>j. if j < n then x ! j else - 1"]
      by (simp add: ref_row_space)
  qed
  from rs rk hom aug show ?thesis by blast
qed

theorem ref_preserves_row_space_witness:
  "row_space (fst (ref (Matrix [[0, 2, 4], [1, 1, 3]]))) = row_space (Matrix [[0, 2, 4], [1, 1, 3]])
   \<and> rank (fst (ref (Matrix [[0, 2, 4], [1, 1, 3]]))) = rank (Matrix [[0, 2, 4], [1, 1, 3]])
   \<and> 0 < cols (Matrix [[0, 2, 4], [1, 1, 3]])
   \<and> solves (coefficients (Matrix [[0, 2, 4], [1, 1, 3]]))
        (rhs_column (Matrix [[0, 2, 4], [1, 1, 3]])) [1, 2]
   \<and> solves (coefficients (fst (ref (Matrix [[0, 2, 4], [1, 1, 3]]))))
        (rhs_column (fst (ref (Matrix [[0, 2, 4], [1, 1, 3]])))) [1, 2]"
proof -
  let ?A = "Matrix [[0, 2, 4], [1, 1, 3]]"
  note t = ref_preserves_row_space [of ?A]
  have c: "0 < cols ?A" by (simp add: Matrix_def)
  have s: "solves (coefficients ?A) (rhs_column ?A) [1, 2]"
    by (simp add: solves_def coefficients_def cols_upto_def rhs_column_def Matrix_def
          atLeastLessThanSuc eval_nat_numeral)
  have "solves (coefficients (fst (ref ?A))) (rhs_column (fst (ref ?A))) [1, 2]"
    using t [THEN conjunct2, THEN conjunct2, THEN conjunct2, rule_format, OF c, of "[1, 2]"] s
    by simp
  moreover have "row_space (fst (ref ?A)) = row_space ?A" using t by (elim conjE)
  moreover have "rank (fst (ref ?A)) = rank ?A" using t by (elim conjE)
  ultimately show ?thesis using c s by (intro conjI)
qed

section \<open>Neither function writes to its argument\<close>

text \<open>
  The run of \<open>ref\<close> in the store is the run of the pure \<open>ref\<close> on the copied object:
  every write goes to the address that \<open>copy_at\<close> allocated.
\<close>

lemma fold_at:
  "a < length h \<Longrightarrow>
   fold (\<lambda>x h'. h'[a := g x (h' ! a)]) xs h = h[a := fold g xs (h ! a)]"
  by (induction xs arbitrary: h) simp_all

lemma row_op_at_eq:
  assumes "a < length h"
  shows "row_op_at h a i (\<lambda>h' val j. F (h' ! a) val j) = h[a := row_op (h ! a) i F]"
  unfolding row_op_at_def row_op_def
  using fold_at [OF assms, of "\<lambda>j M'. set_ent M' i j (F M' (ent M' i j) j)"] by simp

lemma eliminate_at_fold:
  "a < length h \<Longrightarrow>
   fold (\<lambda>r h.
             if ent (h ! a) r col = 0 then h
             else (let factor = ent (h ! a) r col / pv
                   in row_op_at h a r (\<lambda>h' val j. val - factor * ent (h' ! a) p j)))
        rs h
   = h[a := fold (\<lambda>r M.
             if ent M r col = 0 then M
             else (let factor = ent M r col / pv
                   in row_op M r (\<lambda>M' val j. val - factor * ent M' p j)))
        rs (h ! a)]"
proof (induction rs arbitrary: h)
  case Nil
  then show ?case by simp
next
  case (Cons r rs)
  show ?case
  proof (cases "ent (h ! a) r col = 0")
    case True
    then show ?thesis using Cons by simp
  next
    case False
    let ?f = "ent (h ! a) r col / pv"
    have "row_op_at h a r (\<lambda>h' val j. val - ?f * ent (h' ! a) p j)
            = h[a := row_op (h ! a) r (\<lambda>M' val j. val - ?f * ent M' p j)]"
      using Cons.prems by (rule row_op_at_eq)
    then show ?thesis using False Cons.prems
      Cons.IH [of "h[a := row_op (h ! a) r (\<lambda>M' val j. val - ?f * ent M' p j)]"]
      by (simp add: Let_def)
  qed
qed

lemma eliminate_at_eq:
  "a < length h \<Longrightarrow> eliminate_at m h a p col pv = h[a := eliminate m (h ! a) p col pv]"
  unfolding eliminate_at_def eliminate_def by (rule eliminate_at_fold)

lemma ref_loop_at_eq:
  "a < length h \<Longrightarrow>
   ref_loop_at m cs h a pr pcs
     = (h[a := fst (ref_loop m cs (h ! a) pr pcs)], snd (ref_loop m cs (h ! a) pr pcs))"
proof (induction cs arbitrary: h pr pcs)
  case Nil
  then show ?case by simp
next
  case (Cons col cs)
  show ?case
  proof (cases "m \<le> pr")
    case True
    then show ?thesis by simp
  next
    case False
    show ?thesis
    proof (cases "find_pivot m (h ! a) col pr")
      case None
      then show ?thesis using False Cons by simp
    next
      case (Some p)
      define M1 where "M1 = (if p \<noteq> pr then row_swap (h ! a) p pr else h ! a)"
      define M2 where "M2 = eliminate m M1 pr col (ent M1 pr col)"
      have h1: "(if p \<noteq> pr then row_swap_at h a p pr else h) = h[a := M1]"
        by (simp add: M1_def row_swap_at_def)
      have h2: "eliminate_at m (h[a := M1]) a pr col (ent M1 pr col) = h[a := M2]"
        using Cons.prems by (simp add: eliminate_at_eq M2_def)
      have "ref_loop_at m (col # cs) h a pr pcs = ref_loop_at m cs (h[a := M2]) a (pr + 1) (pcs @ [col])"
        using Some False Cons.prems h2 by (simp add: h1 Let_def)
      moreover have "ref_loop m (col # cs) (h ! a) pr pcs = ref_loop m cs M2 (pr + 1) (pcs @ [col])"
        using Some False by (simp add: M1_def M2_def Let_def)
      ultimately show ?thesis
        using Cons.IH [of "h[a := M2]" "pr + 1" "pcs @ [col]"] Cons.prems by simp
    qed
  qed
qed

lemma ref_at_eq:
  assumes "A < length h"
  shows "ref_at h A = (h @ [fst (ref (h ! A))], length h, snd (ref (h ! A)))"
proof -
  have "ref_loop_at (rows (h ! A)) [0..<cols (h ! A)] (h @ [h ! A]) (length h) 0 []
        = (h @ [fst (ref (h ! A))], snd (ref (h ! A)))"
    using ref_loop_at_eq [of "length h" "h @ [h ! A]" "rows (h ! A)" "[0..<cols (h ! A)]" 0 "[]"]
    by (simp add: ref_def copy_def Let_def)
  then show ?thesis using assms
    by (simp add: ref_at_def copy_at_def Let_def nth_append)
qed

text \<open>
  The run of \<open>back_substitution\<close> in the store only appends the slices it allocates, and
  its outcome is that of the pure function on the matrix at the address.
\<close>

lemma is_inconsistent_row_at_eq:
  assumes "row < length h"
  shows "is_inconsistent_row_at h row n
           = (h @ [cols_upto (h ! row) n], is_inconsistent_row (h ! row) n)"
  using assms
  by (simp add: is_inconsistent_row_at_def cols_upto_at_def is_inconsistent_row_def
        nth_append Let_def)

lemma inconsistency_check_at_eq:
  "Ab < length h \<Longrightarrow>
   \<exists>new. fst (inconsistency_check_at is h Ab n) = h @ new
         \<and> snd (inconsistency_check_at is h Ab n)
             = list_ex (\<lambda>i. is_inconsistent_row (row_slice (h ! Ab) i) n) is"
proof (induction "is" arbitrary: h)
  case Nil
  then show ?case by simp
next
  case (Cons i "is")
  let ?r = "row_slice (h ! Ab) i"
  let ?h = "(h @ [?r]) @ [cols_upto ?r n]"
  have step: "is_inconsistent_row_at (h @ [?r]) (length h) n = (?h, is_inconsistent_row ?r n)"
    using is_inconsistent_row_at_eq [of "length h" "h @ [?r]" n] by simp
  show ?case
  proof (cases "is_inconsistent_row ?r n")
    case True
    then show ?thesis using step by (simp add: row_slice_at_def)
  next
    case False
    have "Ab < length ?h" using Cons.prems by simp
    from Cons.IH [OF this] obtain new where
      new: "fst (inconsistency_check_at is ?h Ab n) = ?h @ new"
        "snd (inconsistency_check_at is ?h Ab n)
           = list_ex (\<lambda>i. is_inconsistent_row (row_slice (?h ! Ab) i) n) is"
      by blast
    have same: "?h ! Ab = h ! Ab" using Cons.prems by (simp add: nth_append)
    have "inconsistency_check_at (i # is) h Ab n = inconsistency_check_at is ?h Ab n"
      using step False by (simp add: row_slice_at_def)
    then show ?thesis using new False same
      by (intro exI [of _ "[?r, cols_upto ?r n] @ new"]) simp
  qed
qed

lemma back_substitution_at_eq:
  assumes "Ab < length h"
  shows "\<exists>new. fst (back_substitution_at h Ab n) = h @ new"
    and "snd (back_substitution_at h Ab n) = back_substitution (h ! Ab) n"
proof -
  obtain new where
    new: "fst (inconsistency_check_at [0..<rows (h ! Ab)] h Ab n) = h @ new"
      "snd (inconsistency_check_at [0..<rows (h ! Ab)] h Ab n)
         = list_ex (\<lambda>i. is_inconsistent_row (row_slice (h ! Ab) i) n) [0..<rows (h ! Ab)]"
    using inconsistency_check_at_eq [OF assms] by blast
  have same: "(h @ new) ! Ab = h ! Ab" using assms by (simp add: nth_append)
  obtain h' bad where hb: "inconsistency_check_at [0..<rows (h ! Ab)] h Ab n = (h', bad)"
    by (cases "inconsistency_check_at [0..<rows (h ! Ab)] h Ab n")
  with new have h': "h' = h @ new"
    and bad: "bad = list_ex (\<lambda>i. is_inconsistent_row (row_slice (h ! Ab) i) n) [0..<rows (h ! Ab)]"
    by simp_all
  show "\<exists>new. fst (back_substitution_at h Ab n) = h @ new"
    unfolding back_substitution_at_def Let_def hb
    by (auto simp: h' split: prod.splits)
  show "snd (back_substitution_at h Ab n) = back_substitution (h ! Ab) n"
    unfolding back_substitution_at_def back_substitution_def Let_def hb
    by (simp add: h' same bad [symmetric] split: prod.splits)
qed

text \<open>
  C10. A call \<^verbatim>\<open>ref(A)\<close> leaves the caller's matrix, and every other object that was
  in the store, entry for entry as it was: the result is a new object at a fresh
  address, holding what the pure \<open>ref\<close> computes from \<open>A\<close>. A call of
  \<^verbatim>\<open>back_substitution\<close> on \<open>Ab\<close> also leaves every object that was in the store as it
  was, \<open>Ab\<close> among them.
\<close>

theorem inputs_are_not_mutated:
  assumes "A < length h"
  shows "fst (ref_at h A) ! A = h ! A
         \<and> take (length h) (fst (ref_at h A)) = h
         \<and> length (fst (ref_at h A)) = Suc (length h)
         \<and> fst (snd (ref_at h A)) = length h
         \<and> fst (ref_at h A) ! fst (snd (ref_at h A)) = fst (ref (h ! A))
         \<and> snd (snd (ref_at h A)) = snd (ref (h ! A))
         \<and> fst (back_substitution_at h A n_vars) ! A = h ! A
         \<and> take (length h) (fst (back_substitution_at h A n_vars)) = h
         \<and> snd (back_substitution_at h A n_vars) = back_substitution (h ! A) n_vars"
proof -
  obtain new where new: "fst (back_substitution_at h A n_vars) = h @ new"
    using back_substitution_at_eq(1) [OF assms] by blast
  have "fst (back_substitution_at h A n_vars) ! A = h ! A"
    "take (length h) (fst (back_substitution_at h A n_vars)) = h"
    using assms by (simp_all add: new nth_append)
  moreover note back_substitution_at_eq(2) [OF assms, of n_vars]
  moreover have "fst (ref_at h A) ! A = h ! A" "take (length h) (fst (ref_at h A)) = h"
    "length (fst (ref_at h A)) = Suc (length h)" "fst (snd (ref_at h A)) = length h"
    "fst (ref_at h A) ! fst (snd (ref_at h A)) = fst (ref (h ! A))"
    "snd (snd (ref_at h A)) = snd (ref (h ! A))"
    using assms by (simp_all add: ref_at_eq nth_append)
  ultimately show ?thesis by (intro conjI)
qed

theorem inputs_are_not_mutated_witness:
  "0 < length [Matrix [[0, 2], [1, 3]]]
   \<and> fst (ref_at [Matrix [[0, 2], [1, 3]]] 0) ! 0 = Matrix [[0, 2], [1, 3]]
   \<and> tolist (fst (ref_at [Matrix [[0, 2], [1, 3]]] 0) ! 1) = [[1, 3], [0, 2]]
   \<and> fst (back_substitution_at [Matrix [[0, 2], [1, 3]]] 0 1) ! 0 = Matrix [[0, 2], [1, 3]]"
proof -
  let ?h = "[Matrix [[0, 2], [1, 3]]]"
  have l: "0 < length ?h" by simp
  note t = inputs_are_not_mutated [OF l]
  have r: "tolist (fst (ref (Matrix [[0, 2], [1, 3]]))) = [[1, 3], [0, 2]]" by code_simp
  have "fst (ref_at ?h 0) ! 0 = Matrix [[0, 2], [1, 3]]"
    using t [of 1] by simp
  moreover have "fst (ref_at ?h 0) ! 1 = fst (ref (Matrix [[0, 2], [1, 3]]))"
    using t [of 1] by (elim conjE) simp
  moreover have "fst (back_substitution_at ?h 0 1) ! 0 = Matrix [[0, 2], [1, 3]]"
    using t [of 1] by simp
  ultimately show ?thesis using r by simp
qed

end
